theory Spec2Isabelle
  imports Complex_Main "HOL-Library.Sublist"
begin

chapter \<open>The model: \<^verbatim>\<open>formula.py\<close> as HOL functions\<close>

section \<open>Python exceptions as values\<close>

text \<open>
  The functions of \<^verbatim>\<open>formula.py\<close> work on Python's unbounded integers, modelled
  as \<^typ>\<open>int\<close>: \<^verbatim>\<open>//\<close> is \<open>div\<close> and \<^verbatim>\<open>%\<close> is \<open>mod\<close> (both floor
  towards minus infinity, the remainder taking the sign of the divisor, as in
  Python), except that Python raises \<^verbatim>\<open>ZeroDivisionError\<close> on a zero divisor. Every
  \<^verbatim>\<open>raise\<close> of the source, and every exception a built-in raises, is a value of
  the type below; a function that can raise returns \<open>error + 'a\<close>. A loop that
  may run forever on some input returns an \<open>option\<close>, \<open>None\<close> standing for
  no return at all.
\<close>

datatype error = ValueError | ZeroDivisionError | IndexError | UnboundLocalError

section \<open>\<^verbatim>\<open>max_subarray\<close>\<close>

text \<open>
  \<^verbatim>\<open>
  def max_subarray(array):
      max_so_far = max_ending_here = 0
      for x in array:
          max_ending_here = max(0, max_ending_here + x)
          max_so_far = max(max_so_far, max_ending_here)
      return max_so_far
  \<close>
  The loop is a recursion over the array that carries both variables.
\<close>

fun max_subarray_loop :: "int list \<Rightarrow> int \<Rightarrow> int \<Rightarrow> int" where
  "max_subarray_loop [] max_so_far max_ending_here = max_so_far"
| "max_subarray_loop (x # array) max_so_far max_ending_here =
     (let max_ending_here' = max 0 (max_ending_here + x);
          max_so_far' = max max_so_far max_ending_here'
      in max_subarray_loop array max_so_far' max_ending_here')"

definition max_subarray :: "int list \<Rightarrow> int" where
  "max_subarray array = max_subarray_loop array 0 0"

text \<open>
  The specification: the sums of all contiguous subranges of the array, the empty
  one included. \<^const>\<open>sublists\<close> enumerates exactly the contiguous sublists.
\<close>

definition subrange_sums :: "int list \<Rightarrow> int set" where
  "subrange_sums array = sum_list ` set (sublists array)"

text \<open>Auxiliary: the best sum of a prefix, and the best sum of any subrange.\<close>

fun best_prefix :: "int list \<Rightarrow> int" where
  "best_prefix [] = 0"
| "best_prefix (x # xs) = max 0 (x + best_prefix xs)"

fun best_subrange :: "int list \<Rightarrow> int" where
  "best_subrange [] = 0"
| "best_subrange (x # xs) = max (best_prefix (x # xs)) (best_subrange xs)"

section \<open>\<^verbatim>\<open>padic\<close>\<close>

text \<open>
  \<^verbatim>\<open>
  def padic(n, p, ntype='s'):
      base = '0123456789' + ''.join(map(chr, range(65, 92)))
      snp = ''
      while True:
          if n == 0:
              break
          n, r = divmod(n, p)
          snp += base[r]
      snp = snp[::-1]
      if ntype == 's':
          return snp
      elif ntype == 'n':
          return int(snp)
      elif ntype == 'l':
          return list(snp)
  \<close>
  Indexing a Python sequence: a negative index counts from the end, an index out
  of range raises \<^verbatim>\<open>IndexError\<close>.
\<close>

definition py_index :: "'a list \<Rightarrow> int \<Rightarrow> error + 'a" where
  "py_index xs i =
     (let len = int (length xs); j = (if i < 0 then len + i else i)
      in if 0 \<le> j \<and> j < len then Inr (xs ! nat j) else Inl IndexError)"

text \<open>The digit table: ten digits, then the characters of codes 65 to 91.\<close>

definition base :: string where
  "base = ''0123456789'' @ map char_of [65 ..< 92 :: nat]"

text \<open>
  The loop does not end when \<open>n\<close> never reaches 0 (a negative \<open>n\<close> with a
  positive \<open>p\<close>), so it is a partial function.
\<close>

partial_function (option) padic_loop :: "int \<Rightarrow> int \<Rightarrow> string \<Rightarrow> (error + string) option" where
  "padic_loop n p snp =
     (if n = 0 then Some (Inr snp)
      else if p = 0 then Some (Inl ZeroDivisionError)
      else (case py_index base (n mod p) of
              Inl e \<Rightarrow> Some (Inl e)
            | Inr c \<Rightarrow> padic_loop (n div p) p (snp @ [c])))"

declare padic_loop.simps [code]

text \<open>
  \<^verbatim>\<open>int(snp)\<close> on a string over the digit table (no sign, blank or underscore can
  occur in it): the decimal value of a non-empty string of digits, \<^verbatim>\<open>ValueError\<close>
  on anything else.
\<close>

definition is_digit :: "char \<Rightarrow> bool" where
  "is_digit c = (c \<in> set ''0123456789'')"

definition py_int :: "string \<Rightarrow> error + int" where
  "py_int s =
     (if s \<noteq> [] \<and> list_all is_digit s
      then Inr (foldl (\<lambda>a c. 10 * a + (of_char c - 48)) 0 s)
      else Inl ValueError)"

text \<open>
  The result is a string, an integer or a list of one-character strings; with any
  other \<open>ntype\<close> the function falls off its end and returns \<^verbatim>\<open>None\<close>.
\<close>

datatype padic_value = Str string | Num int | Lst "string list" | NoneValue

definition padic :: "int \<Rightarrow> int \<Rightarrow> string \<Rightarrow> (error + padic_value) option" where
  "padic n p ntype =
     (case padic_loop n p [] of
        None \<Rightarrow> None
      | Some (Inl e) \<Rightarrow> Some (Inl e)
      | Some (Inr s) \<Rightarrow>
          (let snp = rev s in
           if ntype = ''s'' then Some (Inr (Str snp))
           else if ntype = ''n'' then Some (map_sum id Num (py_int snp))
           else if ntype = ''l'' then Some (Inr (Lst (map (\<lambda>c. [c]) snp)))
           else Some (Inr NoneValue)))"

section \<open>\<^verbatim>\<open>fac_mod\<close>\<close>

text \<open>
  \<^verbatim>\<open>
  def fac_mod(n, m):
      """return n! % m"""
      if n < 0:
          raise ValueError("n in n! must be positive!")
      if n == 0 or n == 1:
          return 1
      output = 1
      for i in range(2, n+1):
          output *= i
          output %= m
      return output
  \<close>
  The loop runs over \<^verbatim>\<open>range(2, n+1)\<close>, the list \<open>[2..n]\<close>; its reduction
  raises \<^verbatim>\<open>ZeroDivisionError\<close> when \<open>m = 0\<close>.
\<close>

fun fac_mod_loop :: "int list \<Rightarrow> int \<Rightarrow> int \<Rightarrow> error + int" where
  "fac_mod_loop [] m output = Inr output"
| "fac_mod_loop (i # rest) m output =
     (if m = 0 then Inl ZeroDivisionError
      else fac_mod_loop rest m ((output * i) mod m))"

definition fac_mod :: "int \<Rightarrow> int \<Rightarrow> error + int" where
  "fac_mod n m =
     (if n < 0 then Inl ValueError
      else if n = 0 \<or> n = 1 then Inr 1
      else fac_mod_loop [2..n] m 1)"

section \<open>\<^verbatim>\<open>inv_mod\<close>\<close>

text \<open>
  \<^verbatim>\<open>
  def inv_mod(n, m):
      n %= m
      if n == 0 or m <= 0:
          return 0
      m0, x0, x1 = m, 0, 1
      while n != 0:
          x0, x1 = x1, x0 - m // n * x1
          m, n = n, m % n
      if m == 1:
          return x0 % m0
      else:
          return 0
  \<close>
  The loop is Euclid's: the absolute value of \<open>n\<close> decreases, so it always ends.
  The first line raises \<^verbatim>\<open>ZeroDivisionError\<close> when \<open>m = 0\<close>.
\<close>

function inv_mod_loop :: "int \<Rightarrow> int \<Rightarrow> int \<Rightarrow> int \<Rightarrow> int \<times> int \<times> int \<times> int" where
  "inv_mod_loop m n x0 x1 =
     (if n \<noteq> 0 then inv_mod_loop n (m mod n) x1 (x0 - m div n * x1)
      else (m, n, x0, x1))"
  by pat_completeness auto
termination
  by (relation "measure (\<lambda>(m, n, x0, x1). nat \<bar>n\<bar>)")
     (auto simp: abs_mod_less)

definition inv_mod :: "int \<Rightarrow> int \<Rightarrow> error + int" where
  "inv_mod n m =
     (if m = 0 then Inl ZeroDivisionError
      else let n = n mod m in
        if n = 0 \<or> m \<le> 0 then Inr 0
        else let m0 = m; (m, n, x0, x1) = inv_mod_loop m n 0 1 in
          if m = 1 then Inr (x0 mod m0) else Inr 0)"

section \<open>\<^verbatim>\<open>iter_associate\<close>\<close>

text \<open>
  \<^verbatim>\<open>
  def iter_associate(f, x, n):
      n, r = n - 1, x
      while n:
          if n % 2:
              r = f(x, r)
          n >>= 1
          x = f(x, x)
      return r
  \<close>
  On Python's integers \<^verbatim>\<open>n >> 1\<close> is \<open>n div 2\<close>, which maps \<open>-1\<close> to itself:
  the loop does not end for \<open>n \<le> 0\<close>, so it is a partial function.
\<close>

partial_function (option) iter_associate_loop ::
  "('a \<Rightarrow> 'a \<Rightarrow> 'a) \<Rightarrow> 'a \<Rightarrow> int \<Rightarrow> 'a \<Rightarrow> 'a option" where
  "iter_associate_loop f x n r =
     (if n \<noteq> 0
      then iter_associate_loop f (f x x) (n div 2) (if n mod 2 \<noteq> 0 then f x r else r)
      else Some r)"

declare iter_associate_loop.simps [code]

definition iter_associate :: "('a \<Rightarrow> 'a \<Rightarrow> 'a) \<Rightarrow> 'a \<Rightarrow> int \<Rightarrow> 'a option" where
  "iter_associate f x n = iter_associate_loop f x (n - 1) x"

text \<open>
  The specification: the naive left fold \<^verbatim>\<open>f(f(...f(x, x)..., x), x)\<close> with \<open>n\<close>
  occurrences of \<open>x\<close>, that is \<open>n - 1\<close> applications of \<open>\<lambda>r. f r x\<close> to \<open>x\<close>;
  and associativity of the operator.
\<close>

definition naive_fold :: "('a \<Rightarrow> 'a \<Rightarrow> 'a) \<Rightarrow> 'a \<Rightarrow> int \<Rightarrow> 'a" where
  "naive_fold f x n = ((\<lambda>r. f r x) ^^ (nat n - 1)) x"

definition associative :: "('a \<Rightarrow> 'a \<Rightarrow> 'a) \<Rightarrow> bool" where
  "associative f = (\<forall>a b c. f a (f b c) = f (f a b) c)"

section \<open>\<^verbatim>\<open>sum_power_series_mod\<close>\<close>

text \<open>
  \<^verbatim>\<open>
  def sum_power_series_mod(i, n, m):
      """sum of x^i mod m from i=1 to n, for i = 0, 1, 2, 3"""
      if i == 0:
          return n
      elif i == 1:
          n %= 2 * m
          return ((n*(n+1)) >> 1) % m
      elif i == 2:
          n %= 6 * m
          m3 = 3 * m
          res = ((n*(n+1)) >> 1) % m3
          return ((res * ((2*n+1) % m3)) % m3) // 3
      elif i == 3:
          n %= 2 * m
          res = ((n*(n+1)) >> 1) % m
          return (res * res) % m
      else:
          return 0
  \<close>
  \<^verbatim>\<open>k >> 1\<close> is \<open>k div 2\<close>; each reduction raises \<^verbatim>\<open>ZeroDivisionError\<close> when
  \<open>m = 0\<close>.
\<close>

definition sum_power_series_mod :: "int \<Rightarrow> int \<Rightarrow> int \<Rightarrow> error + int" where
  "sum_power_series_mod i n m =
     (if i = 0 then Inr n
      else if i = 1 then
        (if m = 0 then Inl ZeroDivisionError
         else let n = n mod (2 * m) in
           Inr (((n * (n + 1)) div 2) mod m))
      else if i = 2 then
        (if m = 0 then Inl ZeroDivisionError
         else let n = n mod (6 * m);
                  m3 = 3 * m;
                  res = ((n * (n + 1)) div 2) mod m3
              in Inr (((res * ((2 * n + 1) mod m3)) mod m3) div 3))
      else if i = 3 then
        (if m = 0 then Inl ZeroDivisionError
         else let n = n mod (2 * m);
                  res = ((n * (n + 1)) div 2) mod m
              in Inr ((res * res) mod m))
      else Inr 0)"

text \<open>The specification: the sum of the \<open>i\<close>-th powers of \<open>1, \<dots>, n\<close>.\<close>

definition power_sum :: "nat \<Rightarrow> int \<Rightarrow> int" where
  "power_sum i n = (\<Sum>k = 1..n. k ^ i)"

section \<open>Continued fractions\<close>

text \<open>
  \<^verbatim>\<open>fractions.Fraction(numerator, denominator)\<close> of the standard library, on two
  integers: it raises \<^verbatim>\<open>ZeroDivisionError\<close> on a zero denominator and otherwise
  divides both by their gcd, negated when the denominator is negative, so that the
  stored pair is in lowest terms with a positive denominator. A fraction is the
  pair of its stored numerator and denominator.
\<close>

definition Fraction :: "int \<Rightarrow> int \<Rightarrow> error + (int \<times> int)" where
  "Fraction numerator denominator =
     (if denominator = 0 then Inl ZeroDivisionError
      else let g = (if denominator < 0 then - gcd numerator denominator
                    else gcd numerator denominator)
           in Inr (numerator div g, denominator div g))"

text \<open>
  \<^verbatim>\<open>
  def rational_continous_frac(p, q=1, limit=100):
      p, q, cfrac = int(p), int(q), []
      while p % q:
          cfrac.append(p//q)
          p, q = q, p % q
      if q:
          cfrac.append(p)
      return tuple(cfrac)
  \<close>
  The loop test raises \<^verbatim>\<open>ZeroDivisionError\<close> when \<open>q = 0\<close>; otherwise the
  absolute value of \<open>q\<close> decreases, so the loop ends. The parameter \<^verbatim>\<open>limit\<close> is
  never read.
\<close>

function rational_continous_frac_loop ::
  "int \<Rightarrow> int \<Rightarrow> int list \<Rightarrow> error + (int \<times> int \<times> int list)" where
  "rational_continous_frac_loop p q cfrac =
     (if q = 0 then Inl ZeroDivisionError
      else if p mod q \<noteq> 0
      then rational_continous_frac_loop q (p mod q) (cfrac @ [p div q])
      else Inr (p, q, cfrac))"
  by pat_completeness auto
termination
  by (relation "measure (\<lambda>(p, q, cfrac). nat \<bar>q\<bar>)") (auto simp: abs_mod_less)

declare rational_continous_frac_loop.simps [simp del]

definition rational_continous_frac :: "int \<Rightarrow> int \<Rightarrow> error + int list" where
  "rational_continous_frac p q =
     (case rational_continous_frac_loop p q [] of
        Inl e \<Rightarrow> Inl e
      | Inr (p', q', cfrac) \<Rightarrow> Inr (if q' \<noteq> 0 then cfrac @ [p'] else cfrac))"

text \<open>
  \<^verbatim>\<open>
  def continous_frac_convergent(cfrac):
      if len(cfrac) < 2:
          raise ValueError("Continued fraction must longer than 2!")
      a0, a1 = cfrac[:2]
      p0, p1, q0, q1 = a0, a0*a1+1, 1, a1
      cvg = [Fraction(p0, q0), Fraction(p1, q1)]
      for a in cfrac[2:]:
          p0, p1 = p1, a*p1 + p0
          q0, q1 = q1, a*q1 + q0
          cvg.append(Fraction(p1, q1))
      return cvg
  \<close>
\<close>

fun continous_frac_convergent_loop ::
  "int list \<Rightarrow> int \<Rightarrow> int \<Rightarrow> int \<Rightarrow> int \<Rightarrow> (int \<times> int) list \<Rightarrow> error + (int \<times> int) list" where
  "continous_frac_convergent_loop [] p0 p1 q0 q1 cvg = Inr cvg"
| "continous_frac_convergent_loop (a # rest) p0 p1 q0 q1 cvg =
     (case Fraction (a * p1 + p0) (a * q1 + q0) of
        Inl e \<Rightarrow> Inl e
      | Inr c \<Rightarrow>
          continous_frac_convergent_loop rest p1 (a * p1 + p0) q1 (a * q1 + q0) (cvg @ [c]))"

fun continous_frac_convergent :: "int list \<Rightarrow> error + (int \<times> int) list" where
  "continous_frac_convergent (a0 # a1 # rest) =
     (let p0 = a0; p1 = a0 * a1 + 1; q0 = 1; q1 = a1 in
      case Fraction p0 q0 of
        Inl e \<Rightarrow> Inl e
      | Inr c0 \<Rightarrow>
          (case Fraction p1 q1 of
             Inl e \<Rightarrow> Inl e
           | Inr c1 \<Rightarrow> continous_frac_convergent_loop rest p0 p1 q0 q1 [c0, c1]))"
| "continous_frac_convergent cfrac = Inl ValueError"

text \<open>
  Auxiliary: the pairs the recurrence itself produces, before \<^verbatim>\<open>Fraction\<close>
  normalises them, and the value of a finite continued fraction as a numerator
  and a denominator, computed from its last term backwards.
\<close>

fun convergents :: "int list \<Rightarrow> int \<Rightarrow> int \<Rightarrow> int \<Rightarrow> int \<Rightarrow> (int \<times> int) list" where
  "convergents [] p0 p1 q0 q1 = []"
| "convergents (a # rest) p0 p1 q0 q1 =
     (a * p1 + p0, a * q1 + q0) # convergents rest p1 (a * p1 + p0) q1 (a * q1 + q0)"

fun cf_eval :: "int list \<Rightarrow> int \<times> int" where
  "cf_eval [] = (1, 0)"
| "cf_eval (a # rest) = (a * fst (cf_eval rest) + snd (cf_eval rest), fst (cf_eval rest))"

section \<open>\<^verbatim>\<open>sum_floor\<close>\<close>

text \<open>
  \<^verbatim>\<open>
  try:
      from gmpy2 import is_square, fac, isqrt, iroot
  except:
      isqrt = None
  def _isqrt(n):
      """return integer square root of n"""
      return int(n**0.5)
  if isqrt is None:
      isqrt = _isqrt
  \<close>
  The name \<^verbatim>\<open>isqrt\<close> is bound when the module is loaded, to the function of
  the library gmpy2 or, without that library, to the repository's \<^verbatim>\<open>_isqrt\<close>,
  which goes through a double: \<^verbatim>\<open>int(n**0.5)\<close>. \<^verbatim>\<open>sum_floor\<close> below therefore
  takes its \<open>isqrt\<close> as a parameter, a function that returns an integer or
  raises, and what is proved of it holds for either binding. The doubles of
  \<^verbatim>\<open>_isqrt\<close> are not modelled: that binding is covered by the parameter alone.
\<close>

text \<open>
  Modelled from the spec: \<open>gmpy2_isqrt\<close> is the binding of \<^verbatim>\<open>isqrt\<close> to gmpy2, a
  library that is not part of the repository: the integer square root, the
  largest \<open>r\<close> with \<open>r * r \<le> n\<close>, raising \<^verbatim>\<open>ValueError\<close> on a negative argument.
  The search is its executable definition; \<open>gmpy2_isqrt_exact\<close> proves that it is
  the integer square root. It serves as the \<open>isqrt\<close> of the examples.
\<close>

fun isqrt_search :: "nat \<Rightarrow> nat \<Rightarrow> nat" where
  "isqrt_search n 0 = 0"
| "isqrt_search n (Suc k) = (if Suc k * Suc k \<le> n then Suc k else isqrt_search n k)"

definition gmpy2_isqrt :: "int \<Rightarrow> error + int" where
  "gmpy2_isqrt n =
     (if n < 0 then Inl ValueError else Inr (int (isqrt_search (nat n) (nat n))))"

text \<open>Python's \<^verbatim>\<open>a // b\<close>, which raises on a zero divisor.\<close>

definition floordiv :: "int \<Rightarrow> int \<Rightarrow> error + int" where
  "floordiv a b = (if b = 0 then Inl ZeroDivisionError else Inr (a div b))"

text \<open>
  \<^verbatim>\<open>
  def sum_floor(n, xmin, xmax):
      nrt = isqrt(n)
      res = 0
      if xmin > n:
          return 0
      if xmax > n:
          xmax = n

      if xmax <= nrt:
          for x in range(xmin, xmax+1):
              res += n // x
      elif xmin >= nrt:
          real_xmin = n // xmax
          real_xmax = n // xmin
          a0 = 0
          a1 = n // real_xmin
          for x in range(real_xmin, real_xmax+1):
              a0 = a1
              a1 = n // (x+1)
              ub = a0 if a0 < xmax else xmax
              lb = a1 if a1 >= xmin-1 else xmin-1
              res += (ub - lb) * x
      else:
          real_xmin = n // xmax
          if real_xmin > xmin:
              real_xmin = xmin
          a0 = 0
          a1 = n // real_xmin
          for x in range(real_xmin, nrt+1):
              a0 = a1
              a1 = n // (x+1)
              if x >= xmin:
                  res += a0
              if a1 < xmax:
                  ub = a0 if a0 < xmax else xmax
                  res += (ub - a1) * x
          if x == n // x:
              res -= x
      return res
  \<close>
  Each of the three loops is a recursion over its range \<^verbatim>\<open>range(a, b+1)\<close>, the
  list \<open>[a..b]\<close>, that carries \<open>a0\<close>, \<open>a1\<close> and \<open>res\<close>. After the third loop
  the variable \<open>x\<close> holds the last value of the range, \<open>nrt\<close>; had the range
  been empty, reading \<open>x\<close> would raise \<^verbatim>\<open>UnboundLocalError\<close>.
\<close>

fun sum_floor_small :: "int \<Rightarrow> int list \<Rightarrow> int \<Rightarrow> error + int" where
  "sum_floor_small n [] res = Inr res"
| "sum_floor_small n (x # xs) res =
     (case floordiv n x of
        Inl e \<Rightarrow> Inl e
      | Inr y \<Rightarrow> sum_floor_small n xs (res + y))"

fun sum_floor_large :: "int \<Rightarrow> int \<Rightarrow> int \<Rightarrow> int list \<Rightarrow> int \<Rightarrow> int \<Rightarrow> int \<Rightarrow> error + int" where
  "sum_floor_large n xmin xmax [] a0 a1 res = Inr res"
| "sum_floor_large n xmin xmax (x # xs) a0 a1 res =
     (case floordiv n (x + 1) of
        Inl e \<Rightarrow> Inl e
      | Inr a1' \<Rightarrow>
          (let a0' = a1;
               ub = (if a0' < xmax then a0' else xmax);
               lb = (if a1' \<ge> xmin - 1 then a1' else xmin - 1)
           in sum_floor_large n xmin xmax xs a0' a1' (res + (ub - lb) * x)))"

fun sum_floor_straddle :: "int \<Rightarrow> int \<Rightarrow> int \<Rightarrow> int list \<Rightarrow> int \<Rightarrow> int \<Rightarrow> int \<Rightarrow> error + int" where
  "sum_floor_straddle n xmin xmax [] a0 a1 res = Inr res"
| "sum_floor_straddle n xmin xmax (x # xs) a0 a1 res =
     (case floordiv n (x + 1) of
        Inl e \<Rightarrow> Inl e
      | Inr a1' \<Rightarrow>
          (let a0' = a1;
               res1 = (if x \<ge> xmin then res + a0' else res);
               res2 = (if a1' < xmax
                       then (let ub = (if a0' < xmax then a0' else xmax)
                             in res1 + (ub - a1') * x)
                       else res1)
           in sum_floor_straddle n xmin xmax xs a0' a1' res2))"

definition sum_floor_large_case :: "int \<Rightarrow> int \<Rightarrow> int \<Rightarrow> error + int" where
  "sum_floor_large_case n xmin xmax =
     (case floordiv n xmax of
        Inl e \<Rightarrow> Inl e
      | Inr real_xmin \<Rightarrow>
          (case floordiv n xmin of
             Inl e \<Rightarrow> Inl e
           | Inr real_xmax \<Rightarrow>
               (case floordiv n real_xmin of
                  Inl e \<Rightarrow> Inl e
                | Inr a1 \<Rightarrow>
                    sum_floor_large n xmin xmax [real_xmin..real_xmax] 0 a1 0)))"

definition sum_floor_straddle_case :: "int \<Rightarrow> int \<Rightarrow> int \<Rightarrow> int \<Rightarrow> error + int" where
  "sum_floor_straddle_case n nrt xmin xmax =
     (case floordiv n xmax of
        Inl e \<Rightarrow> Inl e
      | Inr real_xmin' \<Rightarrow>
          (let real_xmin = (if real_xmin' > xmin then xmin else real_xmin') in
           case floordiv n real_xmin of
             Inl e \<Rightarrow> Inl e
           | Inr a1 \<Rightarrow>
               (case sum_floor_straddle n xmin xmax [real_xmin..nrt] 0 a1 0 of
                  Inl e \<Rightarrow> Inl e
                | Inr res \<Rightarrow>
                    if real_xmin > nrt then Inl UnboundLocalError
                    else
                      (case floordiv n nrt of
                         Inl e \<Rightarrow> Inl e
                       | Inr y \<Rightarrow> Inr (if nrt = y then res - nrt else res)))))"

definition sum_floor :: "(int \<Rightarrow> error + int) \<Rightarrow> int \<Rightarrow> int \<Rightarrow> int \<Rightarrow> error + int" where
  "sum_floor isqrt n xmin xmax' =
     (case isqrt n of
        Inl e \<Rightarrow> Inl e
      | Inr nrt \<Rightarrow>
          if xmin > n then Inr 0
          else
            (let xmax = (if xmax' > n then n else xmax') in
             if xmax \<le> nrt then sum_floor_small n [xmin..xmax] 0
             else if xmin \<ge> nrt then sum_floor_large_case n xmin xmax
             else sum_floor_straddle_case n nrt xmin xmax))"

text \<open>The specification: the naive summation of \<open>n div x\<close> over the range.\<close>

definition naive_sum_floor :: "int \<Rightarrow> int \<Rightarrow> int \<Rightarrow> int" where
  "naive_sum_floor n xmin xmax = (\<Sum>x = xmin..xmax. n div x)"

text \<open>
  Auxiliary: what one round of the second loop, and of the third loop, adds to
  \<open>res\<close>.
\<close>

definition large_term :: "int \<Rightarrow> int \<Rightarrow> int \<Rightarrow> int \<Rightarrow> int" where
  "large_term n xmin xmax x = (min (n div x) xmax - max (n div (x + 1)) (xmin - 1)) * x"

definition straddle_term :: "int \<Rightarrow> int \<Rightarrow> int \<Rightarrow> int \<Rightarrow> int" where
  "straddle_term n xmin xmax x =
     (if xmin \<le> x then n div x else 0)
     + (if n div (x + 1) < xmax then (min (n div x) xmax - n div (x + 1)) * x else 0)"

section \<open>\<^verbatim>\<open>irrational_continous_frac\<close>\<close>

text \<open>
  \<^verbatim>\<open>
  def irrational_continous_frac(d, p=0, q=1, limit=100):
      from fractions import Fraction
      d, p, q = int(d), int(p), int(q)
      sd = sqrt(d)
      if int(sd) * int(sd) == d:
          raise ValueError("D is perfect square!")
      a = int((p + sd) / q)
      repetend, pairspq = [a], []
      for _ in range(limit):
          p = Fraction(a*q - p, 1)
          q = Fraction(d - p*p, q)
          a = int((p + sd) / q)
          if (p, q) in pairspq:
              i = pairspq.index((p, q))
              return tuple(repetend[:i+1] + [tuple(repetend[i+1:])])
          pairspq.append((p, q))
          repetend.append(a)
      raise ValueError("Repetend is longer than {0:d}, please try higher limit!".format(limit))
  \<close>
  The function goes through doubles in two places, and both are parameters of the
  model, so that what is proved holds for every behaviour of the doubles:
  \<open>int_sqrt d\<close> stands for \<^verbatim>\<open>int(sqrt(d))\<close>, or the exception \<^verbatim>\<open>math.sqrt\<close> raises,
  and \<open>partial_quotient d p q\<close> for \<^verbatim>\<open>int((p + sd) / q)\<close> with \<^verbatim>\<open>sd = sqrt(d)\<close>, or the
  exception the division raises. All the rest is exact: \<open>p\<close> and \<open>q\<close> are integers
  at first and \<^verbatim>\<open>Fraction\<close>s from the first round on, here rationals, compared by
  value; \<^verbatim>\<open>Fraction(d - p*p, q)\<close> raises \<^verbatim>\<open>ZeroDivisionError\<close> when \<open>q\<close> is 0. The
  result, a tuple of terms ending with the nested tuple of the period, is the pair
  of the two lists. As everywhere in this theory an exception is modelled by its
  class: the message texts of the two \<^verbatim>\<open>ValueError\<close>s are not part of the model.

  \<^verbatim>\<open>pairspq.index(x)\<close>: the position of the first occurrence, \<^verbatim>\<open>ValueError\<close> when
  there is none.
\<close>

fun index_of :: "'a list \<Rightarrow> 'a \<Rightarrow> error + nat" where
  "index_of [] x = Inl ValueError"
| "index_of (y # ys) x =
     (if y = x then Inr 0
      else (case index_of ys x of Inl e \<Rightarrow> Inl e | Inr i \<Rightarrow> Inr (Suc i)))"

text \<open>
  The \<^verbatim>\<open>for\<close> loop over \<^verbatim>\<open>range(limit)\<close>, by recursion on the number of rounds left.
  It ends with an exception, with the returned value, or by running out of rounds
  without having returned (\<open>Inr None\<close>), after which the function raises.
\<close>

fun irrational_continous_frac_loop ::
  "(int \<Rightarrow> rat \<Rightarrow> rat \<Rightarrow> error + int) \<Rightarrow> int \<Rightarrow> nat \<Rightarrow> rat \<Rightarrow> rat \<Rightarrow> int \<Rightarrow> int list
     \<Rightarrow> (rat \<times> rat) list \<Rightarrow> error + (int list \<times> int list) option" where
  "irrational_continous_frac_loop partial_quotient d 0 p q a repetend pairspq = Inr None"
| "irrational_continous_frac_loop partial_quotient d (Suc rounds) p q a repetend pairspq =
     (let p' = of_int a * q - p in
      if q = 0 then Inl ZeroDivisionError
      else
        (let q' = (of_int d - p' * p') / q in
         case partial_quotient d p' q' of
           Inl e \<Rightarrow> Inl e
         | Inr a' \<Rightarrow>
             if (p', q') \<in> set pairspq
             then (case index_of pairspq (p', q') of
                     Inl e \<Rightarrow> Inl e
                   | Inr i \<Rightarrow> Inr (Some (take (i + 1) repetend, drop (i + 1) repetend)))
             else irrational_continous_frac_loop partial_quotient d rounds p' q' a'
                    (repetend @ [a']) (pairspq @ [(p', q')])))"

definition irrational_continous_frac ::
  "(int \<Rightarrow> error + int) \<Rightarrow> (int \<Rightarrow> rat \<Rightarrow> rat \<Rightarrow> error + int)
     \<Rightarrow> int \<Rightarrow> int \<Rightarrow> int \<Rightarrow> int \<Rightarrow> error + (int list \<times> int list)" where
  "irrational_continous_frac int_sqrt partial_quotient d p q limit =
     (case int_sqrt d of
        Inl e \<Rightarrow> Inl e
      | Inr s \<Rightarrow>
          if s * s = d then Inl ValueError
          else
            (case partial_quotient d (of_int p) (of_int q) of
               Inl e \<Rightarrow> Inl e
             | Inr a \<Rightarrow>
                 (case irrational_continous_frac_loop partial_quotient d (nat limit)
                         (of_int p) (of_int q) a [a] [] of
                    Inl e \<Rightarrow> Inl e
                  | Inr (Some result) \<Rightarrow> Inr result
                  | Inr None \<Rightarrow> Inl ValueError)))"



chapter \<open>Verification\<close>

section \<open>\<^verbatim>\<open>max_subarray\<close> is Kadane's scan\<close>

lemma best_prefix_nonneg: "0 \<le> best_prefix xs"
  by (cases xs) simp_all

lemma best_prefix_le_subrange: "best_prefix xs \<le> best_subrange xs"
  by (cases xs) simp_all

lemma best_subrange_nonneg: "0 \<le> best_subrange xs"
  using best_prefix_nonneg [of xs] best_prefix_le_subrange [of xs] by linarith

lemma max_subarray_loop_eq:
  "0 \<le> e \<Longrightarrow> e \<le> s \<Longrightarrow>
   max_subarray_loop xs s e = max s (max (e + best_prefix xs) (best_subrange xs))"
proof (induction xs arbitrary: s e)
  case Nil
  then show ?case by simp
next
  case (Cons x xs)
  let ?e = "max 0 (e + x)"
  have "max_subarray_loop (x # xs) s e = max_subarray_loop xs (max s ?e) ?e"
    by (simp add: Let_def)
  also have "\<dots> = max (max s ?e) (max (?e + best_prefix xs) (best_subrange xs))"
    by (rule Cons.IH) simp_all
  also have "\<dots> = max s (max (e + best_prefix (x # xs)) (best_subrange (x # xs)))"
    using Cons.prems best_prefix_nonneg [of xs] best_prefix_le_subrange [of xs]
    by (simp add: max_def)
  finally show ?case .
qed

lemma max_subarray_best_subrange: "max_subarray xs = best_subrange xs"
  using max_subarray_loop_eq [of 0 0 xs] best_prefix_le_subrange [of xs]
    best_subrange_nonneg [of xs]
  by (simp add: max_subarray_def)

lemma best_prefix_Max: "best_prefix xs = Max (sum_list ` set (prefixes xs))"
proof (induction xs)
  case Nil
  then show ?case by simp
next
  case (Cons x xs)
  let ?S = "sum_list ` set (prefixes xs)"
  have fin: "finite ?S" and ne: "?S \<noteq> {}"
    by auto
  have "sum_list ` set (prefixes (x # xs)) = insert 0 ((\<lambda>k. x + k) ` ?S)"
    by (simp add: image_image)
  then have "Max (sum_list ` set (prefixes (x # xs))) = max 0 (Max ((\<lambda>k. x + k) ` ?S))"
    using fin ne by simp
  also have "Max ((\<lambda>k. x + k) ` ?S) = x + Max ?S"
    using fin ne by (intro mono_Max_commute [symmetric]) (auto simp: mono_def)
  finally show ?case
    using Cons.IH by simp
qed

lemma best_subrange_Max: "best_subrange xs = Max (subrange_sums xs)"
proof (induction xs)
  case Nil
  then show ?case by (simp add: subrange_sums_def)
next
  case (Cons x xs)
  let ?P = "sum_list ` set (prefixes (x # xs))"
  let ?S = "sum_list ` set (sublists xs)"
  have "[] \<in> set (sublists xs)"
    by simp
  then have "sum_list ([] :: int list) \<in> ?S"
    by (rule imageI)
  then have zero: "0 \<in> ?S"
    by simp
  then have "subrange_sums (x # xs) = ?P \<union> ?S"
    by (auto simp: subrange_sums_def image_Un image_image)
  moreover have "finite ?P" "?P \<noteq> {}" "finite ?S"
    by auto
  moreover have "?S \<noteq> {}"
    using zero by auto
  ultimately have "Max (subrange_sums (x # xs)) = max (Max ?P) (Max ?S)"
    by (simp add: Max_Un)
  then show ?case
    using Cons.IH best_prefix_Max [of "x # xs"]
    by (simp add: subrange_sums_def del: best_prefix.simps prefixes.simps)
qed

text \<open>
  C9 (as amended). \<^verbatim>\<open>max_subarray(array)\<close> is the greatest sum of a contiguous
  subrange of the array, the empty subrange included, so it is never negative;
  it is 0 on the empty array and on \<^verbatim>\<open>[-1, -2, -3]\<close>, and it is 5 on
  \<^verbatim>\<open>[2, -1, 3, -4, 5]\<close> (the whole array, or its last element alone).
\<close>

theorem max_subarray_is_max_subrange_sum:
  "max_subarray array = Max (subrange_sums array)
   \<and> 0 \<le> max_subarray array
   \<and> max_subarray [] = 0
   \<and> max_subarray [-1, -2, -3] = 0
   \<and> max_subarray [2, -1, 3, -4, 5] = 5"
proof -
  have "max_subarray array = Max (subrange_sums array)"
    by (simp only: max_subarray_best_subrange best_subrange_Max)
  moreover have "0 \<le> max_subarray array"
    by (simp only: max_subarray_best_subrange best_subrange_nonneg)
  moreover have "max_subarray [] = 0"
    by (simp add: max_subarray_def)
  moreover have "max_subarray [-1, -2, -3] = 0"
    by (simp add: max_subarray_def)
  moreover have "max_subarray [2, -1, 3, -4, 5] = 5"
    by (simp add: max_subarray_def)
  ultimately show ?thesis
    by blast
qed

text \<open>
  The value the specification gives for \<^verbatim>\<open>[2, -1, 3, -4, 5]\<close> is 6; no subrange of
  that array sums to 6, and the scan returns 5.
\<close>

theorem max_subarray_example_not_6:
  "max_subarray [2, -1, 3, -4, 5] = 5 \<and> max_subarray [2, -1, 3, -4, 5] \<noteq> 6
   \<and> 6 \<notin> subrange_sums [2, -1, 3, -4, 5]"
  by (simp add: max_subarray_def subrange_sums_def)

section \<open>\<^verbatim>\<open>padic\<close> on the input 0\<close>

text \<open>
  C10. For every base \<open>p \<ge> 2\<close>, \<^verbatim>\<open>padic\<close> produces no digit for \<open>n = 0\<close>:
  \<^verbatim>\<open>padic(0, p, 's')\<close> is the empty string (not \<^verbatim>\<open>'0'\<close>), \<^verbatim>\<open>padic(0, p, 'l')\<close> is
  the empty list, and \<^verbatim>\<open>padic(0, p, 'n')\<close> fails, \<^verbatim>\<open>int('')\<close> raising
  \<^verbatim>\<open>ValueError\<close>, rather than returning 0.
\<close>

theorem padic_zero_no_digits:
  "2 \<le> p \<Longrightarrow>
   padic 0 p ''s'' = Some (Inr (Str ''''))
   \<and> padic 0 p ''s'' \<noteq> Some (Inr (Str ''0''))
   \<and> padic 0 p ''l'' = Some (Inr (Lst []))
   \<and> padic 0 p ''n'' = Some (Inl ValueError)"
  by (simp add: padic_def padic_loop.simps py_int_def)

theorem padic_zero_no_digits_witness:
  "(2::int) \<le> 16
   \<and> padic 0 16 ''s'' = Some (Inr (Str ''''))
   \<and> padic 0 16 ''l'' = Some (Inr (Lst []))
   \<and> padic 0 16 ''n'' = Some (Inl ValueError)"
  using padic_zero_no_digits [of 16] by simp

section \<open>\<^verbatim>\<open>fac_mod\<close>: the factorial modulo \<open>m\<close>\<close>

lemma fac_mod_loop_fact:
  "0 < m \<Longrightarrow> 0 \<le> k \<Longrightarrow> k \<le> n \<Longrightarrow>
   fac_mod_loop [k + 1..n] m (fact (nat k) mod m) = Inr (fact (nat n) mod m)"
proof (induction "nat (n - k)" arbitrary: k)
  case 0
  then have "k = n" by simp
  then show ?case by simp
next
  case (Suc d)
  then have lt: "k < n" by linarith
  then have rng: "[k + 1..n] = (k + 1) # [k + 1 + 1..n]"
    by (simp add: upto_rec1)
  have step: "(fact (nat k) mod m * (k + 1)) mod m = fact (nat (k + 1)) mod m"
  proof -
    have "nat (k + 1) = Suc (nat k)"
      using Suc.prems by simp
    then have "(fact (nat (k + 1)) :: int) = fact (nat k) * (k + 1)"
      using Suc.prems by (simp add: algebra_simps)
    then show ?thesis
      by (simp add: mod_mult_left_eq)
  qed
  have "d = nat (n - (k + 1))"
    using Suc.hyps(2) by linarith
  then have "fac_mod_loop [k + 1 + 1..n] m (fact (nat (k + 1)) mod m) = Inr (fact (nat n) mod m)"
    using Suc.prems lt by (intro Suc.hyps(1)) simp_all
  then show ?case
    using Suc.prems by (simp add: rng step)
qed

lemma fac_mod_fact:
  assumes "0 \<le> n" "0 < m" "2 \<le> n \<or> 1 < m"
  shows "fac_mod n m = Inr (fact (nat n) mod m)"
proof (cases "2 \<le> n")
  case True
  have "fac_mod_loop [2 + 1..n] m (fact (nat 2) mod m) = Inr (fact (nat n) mod m)"
    using assms True by (intro fac_mod_loop_fact) simp_all
  moreover have "[2..n] = 2 # [2 + 1..n]"
    using True by (simp add: upto_rec1)
  moreover have "(fact (nat 2) :: int) = 2"
    by (simp add: numeral_2_eq_2)
  ultimately show ?thesis
    using True assms by (simp add: fac_mod_def)
next
  case False
  then have "n = 0 \<or> n = 1" using assms by linarith
  then show ?thesis
    using assms False by (auto simp: fac_mod_def)
qed

lemma fac_mod_loop_not_ValueError: "fac_mod_loop rest m acc \<noteq> Inl ValueError"
  by (induction rest m acc rule: fac_mod_loop.induct) simp_all

lemma fac_mod_ValueError_iff: "fac_mod n m = Inl ValueError \<longleftrightarrow> n < 0"
  by (simp add: fac_mod_def fac_mod_loop_not_ValueError)

text \<open>
  C7. \<^verbatim>\<open>fac_mod(n, m)\<close> raises the domain error exactly when \<open>n < 0\<close>
  (\<open>fac_mod_ValueError_iff\<close>), and returns \<open>n! mod m\<close> whenever \<open>2 \<le> n\<close> or
  \<open>1 < m\<close> (\<open>fac_mod_fact\<close>). The early return for \<open>n = 0\<close> and \<open>n = 1\<close>
  skips the reduction: with the modulus 1 it returns 1, where \<open>n! mod 1 = 0\<close>, the
  value the loop computes for every \<open>n \<ge> 2\<close>.
\<close>

theorem fac_mod_0_1_unreduced:
  "fac_mod 0 1 = Inr 1 \<and> (fact (nat 0) :: int) mod 1 = 0
   \<and> fac_mod 1 1 = Inr 1 \<and> (fact (nat 1) :: int) mod 1 = 0
   \<and> fac_mod 2 1 = Inr 0"
  by (simp add: fac_mod_def upto_rec1)

section \<open>\<^verbatim>\<open>inv_mod\<close>: the extended Euclidean algorithm\<close>

lemma inv_mod_loop_gcd:
  "0 < m \<Longrightarrow> 0 \<le> n \<Longrightarrow> inv_mod_loop m n x0 x1 = (m', n', x0', x1') \<Longrightarrow> m' = gcd m n"
proof (induction m n x0 x1 rule: inv_mod_loop.induct)
  case (1 m n x0 x1)
  show ?case
  proof (cases "n = 0")
    case True
    with "1.prems" show ?thesis by simp
  next
    case False
    then have pos: "0 < n" using "1.prems" by simp
    then have "0 \<le> m mod n" by simp
    moreover have "inv_mod_loop n (m mod n) x1 (x0 - m div n * x1) = (m', n', x0', x1')"
      using "1.prems"(3) False by simp
    ultimately have "m' = gcd n (m mod n)"
      using False pos by (intro "1.IH") simp_all
    then show ?thesis
      by (simp add: gcd.commute gcd_red_int [symmetric])
  qed
qed

lemma inv_mod_loop_cong:
  "M dvd x0 * N - m \<Longrightarrow> M dvd x1 * N - n \<Longrightarrow>
   inv_mod_loop m n x0 x1 = (m', n', x0', x1') \<Longrightarrow> M dvd x0' * N - m'"
proof (induction m n x0 x1 rule: inv_mod_loop.induct)
  case (1 m n x0 x1)
  show ?case
  proof (cases "n = 0")
    case True
    with "1.prems" show ?thesis by simp
  next
    case False
    have "(x0 - m div n * x1) * N - m mod n = (x0 * N - m) - m div n * (x1 * N - n)"
      by (simp add: algebra_simps minus_div_mult_eq_mod [symmetric])
    then have "M dvd (x0 - m div n * x1) * N - m mod n"
      using "1.prems"(1,2) by simp
    moreover have "inv_mod_loop n (m mod n) x1 (x0 - m div n * x1) = (m', n', x0', x1')"
      using "1.prems"(3) False by simp
    ultimately show ?thesis
      using False "1.prems"(2) by (intro "1.IH") simp_all
  qed
qed

lemma inv_mod_coprime:
  assumes "0 < m" "gcd n m = 1"
  shows "\<exists>r. inv_mod n m = Inr r \<and> 0 \<le> r \<and> r < m \<and> (n * r) mod m = 1 mod m"
proof (cases "n mod m = 0")
  case True
  then have "m dvd n" by auto
  then have "m dvd gcd n m" by simp
  then have "m = 1" using assms by simp
  then show ?thesis
    by (simp add: inv_mod_def)
next
  case False
  obtain m' n' x0' x1' where loop: "inv_mod_loop m (n mod m) 0 1 = (m', n', x0', x1')"
    by (metis prod_cases4)
  have "m' = gcd m (n mod m)"
    using assms loop by (intro inv_mod_loop_gcd [of m "n mod m" 0 1 m' n' x0' x1']) simp_all
  then have m': "m' = 1"
    using assms gcd_red_int [of n m] by simp
  have "m dvd x0' * (n mod m) - m'"
    using loop by (intro inv_mod_loop_cong [of m 0 "n mod m" m 1 "n mod m" m' n' x0' x1']) simp_all
  then have "(x0' * (n mod m)) mod m = 1 mod m"
    using m' by (simp add: mod_eq_dvd_iff)
  moreover have "(n * (x0' mod m)) mod m = (x0' * (n mod m)) mod m"
    by (simp add: mod_mult_right_eq mult.commute)
  ultimately have "(n * (x0' mod m)) mod m = 1 mod m"
    by simp
  moreover have "inv_mod n m = Inr (x0' mod m)"
    using assms False loop m' by (simp add: inv_mod_def)
  ultimately show ?thesis
    using assms by simp
qed

lemma inv_mod_not_coprime:
  assumes "0 < m" "gcd n m \<noteq> 1"
  shows "inv_mod n m = Inr 0"
proof (cases "n mod m = 0")
  case True
  then show ?thesis using assms by (simp add: inv_mod_def)
next
  case False
  obtain m' n' x0' x1' where loop: "inv_mod_loop m (n mod m) 0 1 = (m', n', x0', x1')"
    by (metis prod_cases4)
  have "m' = gcd m (n mod m)"
    using assms loop by (intro inv_mod_loop_gcd [of m "n mod m" 0 1 m' n' x0' x1']) simp_all
  then have m': "m' \<noteq> 1"
    using assms gcd_red_int [of n m] by simp
  then show ?thesis
    using assms False loop by (simp add: inv_mod_def)
qed

text \<open>
  C5. For all integers \<open>n\<close> and \<open>m\<close> with \<open>m > 0\<close>: if \<open>gcd n m = 1\<close> then
  \<^verbatim>\<open>inv_mod(n, m)\<close> returns an \<open>r\<close> in \<open>[0, m)\<close> with \<open>n * r \<equiv> 1 (mod m)\<close>,
  whatever the sign or size of \<open>n\<close>; if \<open>gcd n m \<noteq> 1\<close> it returns 0 and does not
  fail. In particular \<^verbatim>\<open>inv_mod(3, 7) = 5\<close> and \<^verbatim>\<open>inv_mod(2, 4) = 0\<close>.
\<close>

theorem inv_mod_correct:
  "0 < m \<Longrightarrow>
     (gcd n m = 1 \<longrightarrow>
        (\<exists>r. inv_mod n m = Inr r \<and> 0 \<le> r \<and> r < m \<and> (n * r) mod m = 1 mod m))
   \<and> (gcd n m \<noteq> 1 \<longrightarrow> inv_mod n m = Inr 0)
   \<and> inv_mod 3 7 = Inr 5
   \<and> inv_mod 2 4 = Inr 0"
proof -
  assume "0 < m"
  have "inv_mod 3 7 = Inr 5"
    by (simp add: inv_mod_def)
  moreover have "inv_mod 2 4 = Inr 0"
    by (simp add: inv_mod_def)
  ultimately show ?thesis
    using \<open>0 < m\<close> inv_mod_coprime [of m n] inv_mod_not_coprime [of m n] by simp
qed

theorem inv_mod_correct_witness:
  "inv_mod 10 7 = Inr 5 \<and> (10 * 5) mod 7 = (1::int) mod 7 \<and> inv_mod (-6) 4 = Inr 0"
proof -
  have g1: "gcd (10::int) 7 = 1"
    by code_simp
  have g2: "gcd (- 6::int) 4 \<noteq> 1"
    by code_simp
  have "\<exists>r. inv_mod 10 7 = Inr r \<and> 0 \<le> r \<and> r < 7 \<and> (10 * r) mod 7 = 1 mod 7"
    using inv_mod_correct [of 7 10] g1 by simp
  moreover have "inv_mod (-6) 4 = Inr 0"
    using inv_mod_correct [of 4 "-6"] g2 by simp
  moreover have "inv_mod 10 7 = Inr 5"
    by (simp add: inv_mod_def)
  ultimately show ?thesis
    by simp
qed

section \<open>\<^verbatim>\<open>iter_associate\<close>: binary exponentiation of an associative operator\<close>

lemma funpow_double:
  assumes "\<And>y. g y = h (h y)"
  shows "(g ^^ k) y = (h ^^ (2 * k)) y"
proof (induction k arbitrary: y)
  case 0
  show ?case by simp
next
  case (Suc k)
  have "(g ^^ Suc k) y = g ((g ^^ k) y)" by simp
  also have "\<dots> = h (h ((h ^^ (2 * k)) y))" by (simp add: assms Suc.IH)
  finally show ?case by simp
qed

lemma iter_associate_loop_funpow:
  assumes "associative f"
  shows "iter_associate_loop f x (int k) r = Some ((f x ^^ k) r)"
proof (induction k arbitrary: x r rule: less_induct)
  case (less k)
  show ?case
  proof (cases "k = 0")
    case True
    then show ?thesis by (simp add: iter_associate_loop.simps)
  next
    case False
    let ?r = "if int k mod 2 \<noteq> 0 then f x r else r"
    have half: "int k div 2 = int (k div 2)" by simp
    have "k div 2 < k" using False by simp
    then have IH: "iter_associate_loop f (f x x) (int (k div 2)) ?r = Some ((f (f x x) ^^ (k div 2)) ?r)"
      by (rule less.IH)
    have sq: "f (f x x) y = f x (f x y)" for y
      using assms by (simp add: associative_def)
    have "(f (f x x) ^^ (k div 2)) ?r = (f x ^^ (2 * (k div 2))) ?r"
      by (rule funpow_double) (rule sq)
    also have "\<dots> = (f x ^^ k) r"
    proof (cases "even k")
      case True
      then show ?thesis by (auto simp: even_of_nat_iff)
    next
      case False
      then have "k = Suc (2 * (k div 2))" by presburger
      then have "(f x ^^ k) r = (f x ^^ (2 * (k div 2))) (f x r)"
        by (metis funpow_swap1 funpow.simps(2) o_apply)
      moreover have "int k mod 2 \<noteq> 0" using False by presburger
      ultimately show ?thesis by simp
    qed
    finally have "(f (f x x) ^^ (k div 2)) ?r = (f x ^^ k) r" .
    moreover have "iter_associate_loop f x (int k) r = iter_associate_loop f (f x x) (int k div 2) ?r"
      using False by (subst iter_associate_loop.simps) simp
    ultimately show ?thesis
      using IH half by simp
  qed
qed

lemma right_nested_eq_left_nested:
  assumes "associative f"
  shows "(f x ^^ k) x = ((\<lambda>r. f r x) ^^ k) x"
proof (induction k)
  case 0
  show ?case by simp
next
  case (Suc k)
  have shift: "f x (((\<lambda>r. f r x) ^^ j) x) = ((\<lambda>r. f r x) ^^ Suc j) x" for j
  proof (induction j)
    case 0
    show ?case by simp
  next
    case (Suc j)
    have "f x (((\<lambda>r. f r x) ^^ Suc j) x) = f x (f (((\<lambda>r. f r x) ^^ j) x) x)" by simp
    also have "\<dots> = f (f x (((\<lambda>r. f r x) ^^ j) x)) x"
      using assms by (simp add: associative_def)
    also have "\<dots> = f (((\<lambda>r. f r x) ^^ Suc j) x) x"
      by (simp only: Suc.IH)
    finally show ?case by simp
  qed
  have "(f x ^^ Suc k) x = f x ((f x ^^ k) x)" by simp
  also have "\<dots> = f x (((\<lambda>r. f r x) ^^ k) x)" by (simp only: Suc.IH)
  also have "\<dots> = ((\<lambda>r. f r x) ^^ Suc k) x" by (rule shift)
  finally show ?case .
qed

text \<open>
  C6. For every associative operator \<open>f\<close>, every \<open>x\<close> and every \<open>n \<ge> 1\<close>,
  \<^verbatim>\<open>iter_associate(f, x, n)\<close> returns, and its result is the naive left fold of
  \<open>f\<close> over \<open>n\<close> copies of \<open>x\<close>; for \<open>n = 1\<close> it is \<open>x\<close> itself.
\<close>

theorem iter_associate_eq_naive_fold:
  assumes "\<forall>a b c. f a (f b c) = f (f a b) c" and "1 \<le> n"
  shows "iter_associate f x n = Some (naive_fold f x n)"
proof -
  have assoc: "associative f"
    using assms(1) by (simp add: associative_def)
  have "int (nat n - 1) = n - 1"
    using assms(2) by simp
  then have "iter_associate f x n = iter_associate_loop f x (int (nat n - 1)) x"
    by (simp only: iter_associate_def)
  also have "\<dots> = Some ((f x ^^ (nat n - 1)) x)"
    by (rule iter_associate_loop_funpow [OF assoc])
  also have "\<dots> = Some (naive_fold f x n)"
    by (simp add: naive_fold_def right_nested_eq_left_nested [OF assoc])
  finally show ?thesis .
qed

theorem iter_associate_eq_naive_fold_witness:
  "iter_associate (@) ''ab'' 3 = Some ''ababab'' \<and> iter_associate (@) ''ab'' 1 = Some ''ab''"
proof -
  have assoc: "\<forall>a b c :: string. a @ (b @ c) = (a @ b) @ c"
    by simp
  have "iter_associate (@) ''ab'' 3 = Some (naive_fold (@) ''ab'' 3)"
    by (rule iter_associate_eq_naive_fold [OF assoc]) simp
  moreover have "iter_associate (@) ''ab'' 1 = Some (naive_fold (@) ''ab'' 1)"
    by (rule iter_associate_eq_naive_fold [OF assoc]) simp
  moreover have "naive_fold (@) ''ab'' 3 = ''ababab''"
    by code_simp
  moreover have "naive_fold (@) ''ab'' 1 = ''ab''"
    by code_simp
  ultimately show ?thesis
    by simp
qed

section \<open>\<^verbatim>\<open>sum_power_series_mod\<close>: the closed forms modulo \<open>m\<close>\<close>

lemma power_sum_0 [simp]: "power_sum i 0 = 0"
  by (simp add: power_sum_def)

lemma power_sum_step: "0 \<le> n \<Longrightarrow> power_sum i (n + 1) = power_sum i n + (n + 1) ^ i"
proof -
  assume "0 \<le> n"
  then have "{1..n + 1} = insert (n + 1) {1..n}"
    by auto
  then show ?thesis
    by (simp add: power_sum_def)
qed

lemma power_sum_1: "0 \<le> n \<Longrightarrow> 2 * power_sum 1 n = n * (n + 1)"
proof (induction n rule: int_ge_induct)
  case base
  show ?case by simp
next
  case (step n)
  have "2 * power_sum 1 (n + 1) = 2 * power_sum 1 n + 2 * (n + 1)"
    using step.hyps by (simp only: power_sum_step) simp
  also have "\<dots> = (n + 1) * (n + 1 + 1)"
    by (simp only: step.IH) (simp add: algebra_simps)
  finally show ?case .
qed

lemma power_sum_2: "0 \<le> n \<Longrightarrow> 6 * power_sum 2 n = n * (n + 1) * (2 * n + 1)"
proof (induction n rule: int_ge_induct)
  case base
  show ?case by simp
next
  case (step n)
  have "6 * power_sum 2 (n + 1) = 6 * power_sum 2 n + 6 * ((n + 1) * (n + 1))"
    using step.hyps by (simp only: power_sum_step) (simp add: power2_eq_square)
  also have "\<dots> = (n + 1) * (n + 1 + 1) * (2 * (n + 1) + 1)"
    by (simp only: step.IH) (simp add: algebra_simps)
  finally show ?case .
qed

lemma power_sum_3: "0 \<le> n \<Longrightarrow> 4 * power_sum 3 n = (n * (n + 1)) * (n * (n + 1))"
proof (induction n rule: int_ge_induct)
  case base
  show ?case by simp
next
  case (step n)
  have "4 * power_sum 3 (n + 1) = 4 * power_sum 3 n + 4 * ((n + 1) * (n + 1) * (n + 1))"
    using step.hyps by (simp only: power_sum_step) (simp add: power3_eq_cube)
  also have "\<dots> = ((n + 1) * (n + 1 + 1)) * ((n + 1) * (n + 1 + 1))"
    by (simp only: step.IH) (simp add: algebra_simps)
  finally show ?case .
qed

lemma mod_then_div:
  fixes a c m :: int
  assumes "c dvd a"
  shows "(a mod (c * m)) div c = (a div c) mod m"
proof (cases "c = 0")
  case True
  then show ?thesis by simp
next
  case False
  from assms obtain a' where a: "a = c * a'" ..
  have "(c * a') mod (c * m) = c * (a' mod m)"
    by (rule mod_mult_mult1)
  then show ?thesis
    using False by (simp add: a)
qed

lemma triangle_mod:
  fixes n k :: int
  shows "((n mod k) * (n mod k + 1)) mod k = (n * (n + 1)) mod k"
proof -
  have "((n mod k) * (n mod k + 1)) mod k = ((n mod k) * ((n mod k + 1) mod k)) mod k"
    by (simp add: mod_mult_right_eq)
  also have "(n mod k + 1) mod k = (n + 1) mod k"
    by (simp add: mod_add_left_eq)
  also have "((n mod k) * ((n + 1) mod k)) mod k = (n * (n + 1)) mod k"
    by (simp add: mod_mult_eq)
  finally show ?thesis .
qed

lemma half_triangle_mod:
  fixes n m :: int
  shows "(((n mod (2 * m)) * (n mod (2 * m) + 1)) div 2) mod m = ((n * (n + 1)) div 2) mod m"
proof -
  let ?n = "n mod (2 * m)"
  have "((?n * (?n + 1)) div 2) mod m = ((?n * (?n + 1)) mod (2 * m)) div 2"
    by (rule mod_then_div [symmetric]) simp
  also have "\<dots> = ((n * (n + 1)) mod (2 * m)) div 2"
    by (simp only: triangle_mod)
  also have "\<dots> = ((n * (n + 1)) div 2) mod m"
    by (rule mod_then_div) simp
  finally show ?thesis .
qed

lemma sum_power_series_mod_1:
  assumes "0 \<le> n" "m \<noteq> 0"
  shows "sum_power_series_mod 1 n m = Inr (power_sum 1 n mod m)"
proof -
  have "(n * (n + 1)) div 2 = power_sum 1 n"
    using power_sum_1 [OF assms(1)] by simp
  then show ?thesis
    using assms(2) half_triangle_mod [of n m]
    by (simp add: sum_power_series_mod_def Let_def)
qed

lemma sum_power_series_mod_3:
  assumes "0 \<le> n" "m \<noteq> 0"
  shows "sum_power_series_mod 3 n m = Inr (power_sum 3 n mod m)"
proof -
  have s1: "(n * (n + 1)) div 2 = power_sum 1 n"
    using power_sum_1 [OF assms(1)] by simp
  have "4 * power_sum 3 n = (2 * power_sum 1 n) * (2 * power_sum 1 n)"
    by (simp only: power_sum_3 [OF assms(1)] power_sum_1 [OF assms(1)])
  then have s3: "power_sum 3 n = power_sum 1 n * power_sum 1 n"
    by simp
  have "sum_power_series_mod 3 n m = Inr (((power_sum 1 n mod m) * (power_sum 1 n mod m)) mod m)"
    using assms(2) half_triangle_mod [of n m] s1
    by (simp add: sum_power_series_mod_def Let_def)
  then show ?thesis
    by (simp add: s3 mod_mult_eq)
qed

lemma sum_power_series_mod_2:
  assumes "0 \<le> n" "m \<noteq> 0"
  shows "sum_power_series_mod 2 n m = Inr (power_sum 2 n mod m)"
proof -
  let ?n = "n mod (6 * m)"
  let ?m3 = "3 * m"
  have s1: "(n * (n + 1)) div 2 = power_sum 1 n"
    using power_sum_1 [OF assms(1)] by simp
  have "(?n * (?n + 1) div 2) mod ?m3 = ((n mod (2 * ?m3)) * (n mod (2 * ?m3) + 1) div 2) mod ?m3"
    by simp
  also have "\<dots> = ((n * (n + 1)) div 2) mod ?m3"
    by (rule half_triangle_mod)
  finally have res: "(?n * (?n + 1) div 2) mod ?m3 = power_sum 1 n mod ?m3"
    by (simp add: s1)
  have "?n mod ?m3 = n mod ?m3"
    by (rule mod_mod_cancel) simp
  then have "(2 * ?n + 1) mod ?m3 = (2 * n + 1) mod ?m3"
    by (metis mod_add_left_eq mod_mult_right_eq)
  then have "((power_sum 1 n mod ?m3) * ((2 * ?n + 1) mod ?m3)) mod ?m3
      = (power_sum 1 n * (2 * n + 1)) mod ?m3"
    by (simp add: mod_mult_eq)
  moreover have "power_sum 1 n * (2 * n + 1) = 3 * power_sum 2 n"
  proof -
    have "2 * (power_sum 1 n * (2 * n + 1)) = (2 * power_sum 1 n) * (2 * n + 1)"
      by simp
    also have "\<dots> = 6 * power_sum 2 n"
      by (simp only: power_sum_1 [OF assms(1)] power_sum_2 [OF assms(1)])
    finally show ?thesis
      by simp
  qed
  moreover have "(3 * power_sum 2 n) mod (3 * m) div 3 = power_sum 2 n mod m"
    by (simp add: mod_mult_mult1)
  ultimately have "(((?n * (?n + 1) div 2) mod ?m3 * ((2 * ?n + 1) mod ?m3)) mod ?m3) div 3
      = power_sum 2 n mod m"
    by (simp only: res)
  then show ?thesis
    using assms(2) by (simp add: sum_power_series_mod_def Let_def)
qed

lemma sum_power_series_mod_other:
  "i \<notin> {0, 1, 2, 3} \<Longrightarrow> sum_power_series_mod i n m = Inr 0"
  by (simp add: sum_power_series_mod_def)

text \<open>
  C2. For \<open>i = 1, 2, 3\<close>, every \<open>n \<ge> 0\<close> and every \<open>m \<noteq> 0\<close> the function
  returns the power sum modulo \<open>m\<close> (\<open>sum_power_series_mod_1\<close>, \<open>_2\<close>, \<open>_3\<close>),
  and outside \<open>{0, 1, 2, 3}\<close> it returns 0 (\<open>sum_power_series_mod_other\<close>). The
  branch \<open>i = 0\<close> returns \<open>n\<close> itself, not reduced: for \<open>n = 5\<close>, \<open>m = 3\<close> it
  returns 5, where the sum of the zeroth powers modulo 3 is 2.
\<close>

theorem sum_power_series_mod_0_unreduced:
  "sum_power_series_mod 0 5 3 = Inr 5 \<and> power_sum 0 5 mod 3 = 2"
proof -
  have "{1..5::int} = {1, 2, 3, 4, 5}"
    by auto
  then show ?thesis
    by (simp add: sum_power_series_mod_def power_sum_def)
qed

section \<open>Continued fractions: convergents and the round trip\<close>

lemma coprime_of_det:
  fixes a b c d :: int
  assumes "\<bar>a * d - b * c\<bar> = 1"
  shows "coprime a b"
proof (rule coprimeI)
  fix k
  assume "k dvd a" "k dvd b"
  then have "k dvd a * d - b * c"
    by simp
  then have "k dvd \<bar>a * d - b * c\<bar>"
    by simp
  then show "is_unit k"
    by (simp only: assms)
qed

lemma Fraction_lowest_terms:
  "coprime n d \<Longrightarrow> 0 < d \<Longrightarrow> Fraction n d = Inr (n, d)"
  by (simp add: Fraction_def)

lemma convergent_step_invariant:
  fixes a p0 p1 q0 q1 :: int
  assumes "0 \<le> q0" "0 < q1" "\<bar>p1 * q0 - p0 * q1\<bar> = 1" "1 \<le> a"
  shows "0 < a * q1 + q0" and "\<bar>(a * p1 + p0) * q1 - p1 * (a * q1 + q0)\<bar> = 1"
    and "coprime (a * p1 + p0) (a * q1 + q0)"
proof -
  have "0 < a * q1"
    using assms(2,4) by simp
  then show "0 < a * q1 + q0"
    using assms(1) by linarith
  have "(a * p1 + p0) * q1 - p1 * (a * q1 + q0) = - (p1 * q0 - p0 * q1)"
    by (simp add: algebra_simps)
  then show det: "\<bar>(a * p1 + p0) * q1 - p1 * (a * q1 + q0)\<bar> = 1"
    using assms(3) by simp
  have "\<bar>(a * p1 + p0) * q1 - (a * q1 + q0) * p1\<bar> = 1"
    using det by (simp add: mult.commute)
  then show "coprime (a * p1 + p0) (a * q1 + q0)"
    by (rule coprime_of_det)
qed

lemma continous_frac_convergent_loop_eq:
  assumes "0 \<le> q0" "0 < q1" "\<bar>p1 * q0 - p0 * q1\<bar> = 1" "\<forall>a\<in>set rest. 1 \<le> a"
  shows "continous_frac_convergent_loop rest p0 p1 q0 q1 cvg
         = Inr (cvg @ convergents rest p0 p1 q0 q1)"
  using assms
proof (induction rest arbitrary: p0 p1 q0 q1 cvg)
  case Nil
  show ?case by simp
next
  case (Cons a rest)
  have a: "1 \<le> a"
    using Cons.prems(4) by simp
  note inv = convergent_step_invariant [OF Cons.prems(1-3) a]
  have "Fraction (a * p1 + p0) (a * q1 + q0) = Inr (a * p1 + p0, a * q1 + q0)"
    using inv(3) inv(1) by (rule Fraction_lowest_terms)
  moreover have "continous_frac_convergent_loop rest p1 (a * p1 + p0) q1 (a * q1 + q0)
        (cvg @ [(a * p1 + p0, a * q1 + q0)])
      = Inr ((cvg @ [(a * p1 + p0, a * q1 + q0)])
          @ convergents rest p1 (a * p1 + p0) q1 (a * q1 + q0))"
    using Cons.prems(2,4) inv(1,2) by (intro Cons.IH) simp_all
  ultimately show ?case
    by simp
qed

lemma convergents_lowest_terms:
  assumes "0 \<le> q0" "0 < q1" "\<bar>p1 * q0 - p0 * q1\<bar> = 1" "\<forall>a\<in>set rest. 1 \<le> a"
    and "c \<in> set (convergents rest p0 p1 q0 q1)"
  shows "coprime (fst c) (snd c) \<and> 0 < snd c"
  using assms
proof (induction rest arbitrary: p0 p1 q0 q1)
  case Nil
  then show ?case by simp
next
  case (Cons a rest)
  have a: "1 \<le> a"
    using Cons.prems(4) by simp
  note inv = convergent_step_invariant [OF Cons.prems(1-3) a]
  show ?case
  proof (cases "c = (a * p1 + p0, a * q1 + q0)")
    case True
    then show ?thesis
      using inv(1,3) by simp
  next
    case False
    then have "c \<in> set (convergents rest p1 (a * p1 + p0) q1 (a * q1 + q0))"
      using Cons.prems(5) by simp
    then show ?thesis
      using Cons.prems(2,4) inv(1,2) by (intro Cons.IH [of q1 "a * q1 + q0" "a * p1 + p0" p1]) simp_all
  qed
qed

lemma length_convergents: "length (convergents rest p0 p1 q0 q1) = length rest"
  by (induction rest arbitrary: p0 p1 q0 q1) simp_all

lemma convergents_recurrence:
  assumes "2 \<le> k" "k < length rest + 2"
  shows "((p0, q0) # (p1, q1) # convergents rest p0 p1 q0 q1) ! k
         = ((x # y # rest) ! k * fst (((p0, q0) # (p1, q1) # convergents rest p0 p1 q0 q1) ! (k - 1))
              + fst (((p0, q0) # (p1, q1) # convergents rest p0 p1 q0 q1) ! (k - 2)),
            (x # y # rest) ! k * snd (((p0, q0) # (p1, q1) # convergents rest p0 p1 q0 q1) ! (k - 1))
              + snd (((p0, q0) # (p1, q1) # convergents rest p0 p1 q0 q1) ! (k - 2)))"
  using assms
proof (induction rest arbitrary: k p0 p1 q0 q1 x y)
  case Nil
  then show ?case by simp
next
  case (Cons a rest)
  show ?case
  proof (cases "k = 2")
    case True
    then show ?thesis
      by (simp add: numeral_2_eq_2)
  next
    case False
    then obtain j where k: "k = Suc j" and j: "2 \<le> j" "j < length rest + 2"
      using Cons.prems by (cases k) auto
    have j1: "Suc j - 1 = Suc (j - 1)" and j2: "Suc j - 2 = Suc (j - 2)"
      using j(1) by simp_all
    from Cons.IH [OF j, of p1 q1 "a * p1 + p0" "a * q1 + q0" y a]
    show ?thesis
      unfolding k j1 j2 by simp
  qed
qed

lemma last_convergents:
  "last ((p0, q0) # (p1, q1) # convergents rest p0 p1 q0 q1)
   = (p1 * fst (cf_eval rest) + p0 * snd (cf_eval rest),
      q1 * fst (cf_eval rest) + q0 * snd (cf_eval rest))"
proof (induction rest arbitrary: p0 p1 q0 q1)
  case Nil
  show ?case by simp
next
  case (Cons a rest)
  have "last ((p0, q0) # (p1, q1) # convergents (a # rest) p0 p1 q0 q1)
      = last ((p1, q1) # (a * p1 + p0, a * q1 + q0)
          # convergents rest p1 (a * p1 + p0) q1 (a * q1 + q0))"
    by simp
  also have "\<dots> = ((a * p1 + p0) * fst (cf_eval rest) + p1 * snd (cf_eval rest),
      (a * q1 + q0) * fst (cf_eval rest) + q1 * snd (cf_eval rest))"
    by (rule Cons.IH)
  also have "\<dots> = (p1 * fst (cf_eval (a # rest)) + p0 * snd (cf_eval (a # rest)),
      q1 * fst (cf_eval (a # rest)) + q0 * snd (cf_eval (a # rest)))"
    by (simp add: algebra_simps)
  finally show ?case .
qed

lemma rational_continous_frac_loop_coprime:
  assumes "0 < q" "coprime p q" "rational_continous_frac_loop p q acc = Inr (p', q', cf)"
  shows "q' = 1 \<and> (\<exists>xs. cf = acc @ xs \<and> cf_eval (xs @ [p']) = (p, q))"
  using assms
proof (induction p q acc rule: rational_continous_frac_loop.induct)
  case (1 p q acc)
  show ?case
  proof (cases "p mod q = 0")
    case True
    then have "q dvd p"
      by auto
    then have "q dvd gcd p q"
      by simp
    then have q: "q = 1"
      using "1.prems"(1,2) by simp
    have "rational_continous_frac_loop p q acc = Inr (p, q, acc)"
      using "1.prems"(1) True by (subst rational_continous_frac_loop.simps) simp
    then have "p' = p" "q' = q" "cf = acc"
      using "1.prems"(3) by simp_all
    then show ?thesis
      using q by simp
  next
    case False
    have pos: "0 < p mod q"
      using "1.prems"(1) False by (simp add: less_le)
    have cop: "coprime q (p mod q)"
      using "1.prems"(2) by (metis coprime_iff_gcd_eq_1 gcd_red_int)
    have "rational_continous_frac_loop p q acc
        = rational_continous_frac_loop q (p mod q) (acc @ [p div q])"
      using "1.prems"(1) False by (subst rational_continous_frac_loop.simps) simp
    then have "rational_continous_frac_loop q (p mod q) (acc @ [p div q]) = Inr (p', q', cf)"
      using "1.prems"(3) by simp
    with "1.IH" [OF _ False pos cop] "1.prems"(1)
    obtain xs where q': "q' = 1" and cf: "cf = (acc @ [p div q]) @ xs"
      and ev: "cf_eval (xs @ [p']) = (q, p mod q)"
      by auto
    have "cf_eval (((p div q) # xs) @ [p'])
        = ((p div q) * fst (cf_eval (xs @ [p'])) + snd (cf_eval (xs @ [p'])),
           fst (cf_eval (xs @ [p'])))"
      by simp
    also have "\<dots> = (p, q)"
      unfolding ev by simp
    finally have ev': "cf_eval (((p div q) # xs) @ [p']) = (p, q)" .
    have cf': "cf = acc @ ((p div q) # xs)"
      using cf by simp
    show ?thesis
      using q' cf' ev' by blast
  qed
qed

lemma rational_continous_frac_loop_terms_positive:
  assumes "0 < q" "q \<le> p" "rational_continous_frac_loop p q acc = Inr (p', q', cf)"
  shows "\<exists>xs. cf = acc @ xs \<and> (\<forall>a\<in>set (xs @ [p']). 1 \<le> a)"
  using assms
proof (induction p q acc rule: rational_continous_frac_loop.induct)
  case (1 p q acc)
  show ?case
  proof (cases "p mod q = 0")
    case True
    have "rational_continous_frac_loop p q acc = Inr (p, q, acc)"
      using "1.prems"(1) True by (subst rational_continous_frac_loop.simps) simp
    then have "p' = p" "cf = acc"
      using "1.prems"(3) by simp_all
    then show ?thesis
      using "1.prems"(1,2) by simp
  next
    case False
    have pos: "0 < p mod q"
      using "1.prems"(1) False by (simp add: less_le)
    have le: "p mod q \<le> q"
      using "1.prems"(1) by (simp add: less_imp_le)
    have "rational_continous_frac_loop p q acc
        = rational_continous_frac_loop q (p mod q) (acc @ [p div q])"
      using "1.prems"(1) False by (subst rational_continous_frac_loop.simps) simp
    then have "rational_continous_frac_loop q (p mod q) (acc @ [p div q]) = Inr (p', q', cf)"
      using "1.prems"(3) by simp
    with "1.IH" [OF _ False pos le] "1.prems"(1)
    obtain xs where cf: "cf = (acc @ [p div q]) @ xs" and ge: "\<forall>a\<in>set (xs @ [p']). 1 \<le> a"
      by auto
    have "1 \<le> p div q"
      using "1.prems"(1,2) pos_imp_zdiv_pos_iff [of q p] by linarith
    then show ?thesis
      using cf ge by (intro exI [of _ "(p div q) # xs"]) simp
  qed
qed

lemma rational_continous_frac_loop_returns:
  "q \<noteq> 0 \<Longrightarrow> \<exists>p' q' cf. rational_continous_frac_loop p q acc = Inr (p', q', cf)"
proof (induction p q acc rule: rational_continous_frac_loop.induct)
  case (1 p q acc)
  show ?case
  proof (cases "p mod q = 0")
    case True
    then show ?thesis
      using "1.prems" by (subst rational_continous_frac_loop.simps) simp
  next
    case False
    have "p mod q \<noteq> 0"
      by (rule False)
    moreover have "rational_continous_frac_loop p q acc
        = rational_continous_frac_loop q (p mod q) (acc @ [p div q])"
      using "1.prems" False by (subst rational_continous_frac_loop.simps) simp
    ultimately show ?thesis
      using "1.IH" [OF "1.prems" False] by simp
  qed
qed

lemma rational_continous_frac_shape:
  assumes "1 < q" "coprime p q"
  shows "\<exists>a0 a1 rest. rational_continous_frac p q = Inr (a0 # a1 # rest)
           \<and> (\<forall>a\<in>set (a1 # rest). 1 \<le> a)
           \<and> cf_eval (a0 # a1 # rest) = (p, q)"
proof -
  have q0: "0 < q" "q \<noteq> 0"
    using assms(1) by simp_all
  have ndvd: "p mod q \<noteq> 0"
  proof
    assume "p mod q = 0"
    then have "q dvd p"
      by auto
    then have "q dvd gcd p q"
      by simp
    then show False
      using assms by simp
  qed
  have pos: "0 < p mod q"
    using q0(1) ndvd by (simp add: less_le)
  have le: "p mod q \<le> q"
    using q0(1) by (simp add: less_imp_le)
  have cop: "coprime q (p mod q)"
    using assms(2) by (metis coprime_iff_gcd_eq_1 gcd_red_int)
  obtain p' q' cf where loop: "rational_continous_frac_loop q (p mod q) [p div q] = Inr (p', q', cf)"
    using rational_continous_frac_loop_returns [of "p mod q" q "[p div q]"] ndvd by auto
  from rational_continous_frac_loop_coprime [OF pos cop loop]
  obtain xs where q': "q' = 1" and cf: "cf = [p div q] @ xs"
    and ev: "cf_eval (xs @ [p']) = (q, p mod q)"
    by auto
  from rational_continous_frac_loop_terms_positive [OF pos le loop]
  have ge: "\<forall>a\<in>set (xs @ [p']). 1 \<le> a"
    using cf by auto
  obtain a1 rest where tail: "xs @ [p'] = a1 # rest"
    by (cases "xs @ [p']") simp_all
  have "rational_continous_frac_loop p q []
      = rational_continous_frac_loop q (p mod q) ([] @ [p div q])"
    using q0(2) ndvd by (subst rational_continous_frac_loop.simps) simp
  then have "rational_continous_frac_loop p q [] = Inr (p', q', cf)"
    using loop by simp
  then have "rational_continous_frac p q = Inr ((p div q) # a1 # rest)"
    using q' cf tail by (simp add: rational_continous_frac_def)
  moreover have "cf_eval ((p div q) # a1 # rest) = (p, q)"
  proof -
    have e1: "cf_eval (a1 # rest) = (q, p mod q)"
      by (simp only: tail [symmetric] ev)
    have "cf_eval ((p div q) # a1 # rest)
        = ((p div q) * fst (cf_eval (a1 # rest)) + snd (cf_eval (a1 # rest)),
           fst (cf_eval (a1 # rest)))"
      by (rule cf_eval.simps(2))
    also have "\<dots> = (p, q)"
      unfolding e1 by simp
    finally show ?thesis .
  qed
  moreover have "\<forall>a\<in>set (a1 # rest). 1 \<le> a"
    using ge tail by simp
  ultimately show ?thesis
    by blast
qed

lemma continous_frac_convergent_eq:
  assumes "\<forall>a\<in>set (a1 # rest). 1 \<le> a"
  shows "continous_frac_convergent (a0 # a1 # rest)
         = Inr ((a0, 1) # (a0 * a1 + 1, a1) # convergents rest a0 (a0 * a1 + 1) 1 a1)"
proof -
  have a1: "0 < a1" and rest: "\<forall>a\<in>set rest. 1 \<le> a"
    using assms by simp_all
  have det: "\<bar>(a0 * a1 + 1) * 1 - a0 * a1\<bar> = 1"
    by simp
  have det': "\<bar>(a0 * a1 + 1) * 1 - a1 * a0\<bar> = 1"
    by (simp add: mult.commute)
  have f0: "Fraction a0 1 = Inr (a0, 1)"
    by (rule Fraction_lowest_terms) simp_all
  have "coprime (a0 * a1 + 1) a1"
    using det' by (rule coprime_of_det)
  then have f1: "Fraction (a0 * a1 + 1) a1 = Inr (a0 * a1 + 1, a1)"
    using a1 by (rule Fraction_lowest_terms)
  have "continous_frac_convergent_loop rest a0 (a0 * a1 + 1) 1 a1 [(a0, 1), (a0 * a1 + 1, a1)]
      = Inr ([(a0, 1), (a0 * a1 + 1, a1)] @ convergents rest a0 (a0 * a1 + 1) 1 a1)"
    using a1 det rest by (intro continous_frac_convergent_loop_eq) simp_all
  then show ?thesis
    by (simp add: f0 f1 Let_def)
qed

text \<open>
  C3 (as amended). For all integers \<open>p\<close> and \<open>q\<close> with \<open>q > 1\<close> and
  \<open>gcd p q = 1\<close>, \<^verbatim>\<open>rational_continous_frac(p, q)\<close> returns a continued fraction
  on which \<^verbatim>\<open>continous_frac_convergent\<close> returns, and the final convergent is
  exactly the fraction \<open>p / q\<close> (already in lowest terms).
\<close>

theorem rational_round_trip:
  assumes "1 < q" "gcd p q = 1"
  shows "\<exists>cfrac cvg. rational_continous_frac p q = Inr cfrac
           \<and> continous_frac_convergent cfrac = Inr cvg
           \<and> last cvg = (p, q)"
proof -
  have "coprime p q"
    using assms(2) by (simp add: coprime_iff_gcd_eq_1)
  from rational_continous_frac_shape [OF assms(1) this]
  obtain a0 a1 rest where cf: "rational_continous_frac p q = Inr (a0 # a1 # rest)"
    and ge: "\<forall>a\<in>set (a1 # rest). 1 \<le> a"
    and ev: "cf_eval (a0 # a1 # rest) = (p, q)"
    by blast
  let ?cvg = "(a0, 1) # (a0 * a1 + 1, a1) # convergents rest a0 (a0 * a1 + 1) 1 a1"
  have cvg: "continous_frac_convergent (a0 # a1 # rest) = Inr ?cvg"
    using ge by (rule continous_frac_convergent_eq)
  have "last ?cvg = ((a0 * a1 + 1) * fst (cf_eval rest) + a0 * snd (cf_eval rest),
      a1 * fst (cf_eval rest) + 1 * snd (cf_eval rest))"
    by (rule last_convergents)
  also have "\<dots> = cf_eval (a0 # a1 # rest)"
    by (simp add: algebra_simps)
  finally have "last ?cvg = (p, q)"
    by (simp only: ev)
  with cf cvg show ?thesis
    by blast
qed


theorem rational_round_trip_witness:
  "rational_continous_frac 415 93 = Inr [4, 2, 6, 7]
   \<and> continous_frac_convergent [4, 2, 6, 7] = Inr [(4, 1), (9, 2), (58, 13), (415, 93)]"
proof -
  have "gcd (415::int) 93 = 1"
    by code_simp
  with rational_round_trip [of 93 415]
  obtain cfrac cvg where "rational_continous_frac 415 93 = Inr cfrac"
    and "continous_frac_convergent cfrac = Inr cvg" and "last cvg = (415, 93)"
    by auto
  moreover have "rational_continous_frac 415 93 = Inr [4, 2, 6, 7]"
    by code_simp
  moreover have "continous_frac_convergent [4, 2, 6, 7] = Inr [(4, 1), (9, 2), (58, 13), (415, 93)]"
    by code_simp
  ultimately show ?thesis
    by simp
qed

text \<open>
  As stated the round trip fails. For \<open>p / q = 6 / 4\<close> the expansion ends with the
  last numerator 4 instead of the last quotient 2, and the final convergent is
  \<open>5 / 4\<close>, not \<open>3 / 2\<close>; for \<open>3 / 1\<close> the expansion has a single term, which
  \<^verbatim>\<open>continous_frac_convergent\<close> rejects.
\<close>

theorem rational_round_trip_fails:
  "rational_continous_frac 6 4 = Inr [1, 4]
   \<and> continous_frac_convergent [1, 4] = Inr [(1, 1), (5, 4)]
   \<and> Fraction 6 4 = Inr (3, 2)
   \<and> rational_continous_frac 3 1 = Inr [3]
   \<and> continous_frac_convergent [3] = Inl ValueError"
  by code_simp

text \<open>
  C8 (as amended). For every continued fraction with at least two terms whose
  terms after the first are all positive, \<^verbatim>\<open>continous_frac_convergent\<close> returns
  one convergent per prefix (as many as there are terms), each in lowest terms
  with a positive denominator, starting with \<open>a\<^sub>0 / 1\<close> and
  \<open>(a\<^sub>0 a\<^sub>1 + 1) / a\<^sub>1\<close>, whose numerators and denominators satisfy
  \<open>p\<^sub>k = a\<^sub>k p\<^sub>k\<^sub>-\<^sub>1 + p\<^sub>k\<^sub>-\<^sub>2\<close> and \<open>q\<^sub>k = a\<^sub>k q\<^sub>k\<^sub>-\<^sub>1 + q\<^sub>k\<^sub>-\<^sub>2\<close>; with fewer than
  two terms it fails with the domain error.
\<close>

theorem continous_frac_convergent_recurrence:
  assumes "\<forall>a\<in>set (tl cfrac). 1 \<le> a"
  shows "(2 \<le> length cfrac \<longrightarrow>
           (\<exists>cvg. continous_frac_convergent cfrac = Inr cvg
              \<and> length cvg = length cfrac
              \<and> (\<forall>c\<in>set cvg. gcd (fst c) (snd c) = 1 \<and> 0 < snd c)
              \<and> cvg ! 0 = (cfrac ! 0, 1)
              \<and> cvg ! 1 = (cfrac ! 0 * cfrac ! 1 + 1, cfrac ! 1)
              \<and> (\<forall>k. 2 \<le> k \<and> k < length cfrac \<longrightarrow>
                    fst (cvg ! k) = cfrac ! k * fst (cvg ! (k - 1)) + fst (cvg ! (k - 2))
                  \<and> snd (cvg ! k) = cfrac ! k * snd (cvg ! (k - 1)) + snd (cvg ! (k - 2)))))
       \<and> (length cfrac < 2 \<longrightarrow> continous_frac_convergent cfrac = Inl ValueError)"
proof (intro conjI impI)
  assume "length cfrac < 2"
  then have "cfrac = [] \<or> (\<exists>a. cfrac = [a])"
    by (cases cfrac) (auto simp: length_Suc_conv)
  then show "continous_frac_convergent cfrac = Inl ValueError"
    by auto
next
  assume "2 \<le> length cfrac"
  then obtain a0 a1 rest where cfrac: "cfrac = a0 # a1 # rest"
    by (cases cfrac; cases "tl cfrac") auto
  have ge: "\<forall>a\<in>set (a1 # rest). 1 \<le> a"
    using assms cfrac by simp
  let ?cvg = "(a0, 1) # (a0 * a1 + 1, a1) # convergents rest a0 (a0 * a1 + 1) 1 a1"
  have eq: "continous_frac_convergent cfrac = Inr ?cvg"
    unfolding cfrac using ge by (rule continous_frac_convergent_eq)
  have len: "length ?cvg = length cfrac"
    by (simp add: cfrac length_convergents)
  have low: "gcd (fst c) (snd c) = 1 \<and> 0 < snd c" if mem: "c \<in> set ?cvg" for c
  proof -
    have a1: "0 < a1" and rest: "\<forall>a\<in>set rest. 1 \<le> a"
      using ge by simp_all
    have det: "\<bar>(a0 * a1 + 1) * 1 - a0 * a1\<bar> = 1"
      by simp
    have det': "\<bar>(a0 * a1 + 1) * 1 - a1 * a0\<bar> = 1"
      by (simp add: mult.commute)
    have c1: "coprime (a0 * a1 + 1) a1"
      using det' by (rule coprime_of_det)
    consider "c = (a0, 1)" | "c = (a0 * a1 + 1, a1)"
      | "c \<in> set (convergents rest a0 (a0 * a1 + 1) 1 a1)"
      using mem by auto
    then show ?thesis
    proof cases
      case 1
      then show ?thesis by simp
    next
      case 2
      then show ?thesis using c1 a1 by (simp add: coprime_iff_gcd_eq_1)
    next
      case 3
      have "coprime (fst c) (snd c) \<and> 0 < snd c"
        using _ a1 det rest 3 by (rule convergents_lowest_terms) simp
      then show ?thesis by (simp add: coprime_iff_gcd_eq_1)
    qed
  qed
  have rec: "fst (?cvg ! k) = cfrac ! k * fst (?cvg ! (k - 1)) + fst (?cvg ! (k - 2))
      \<and> snd (?cvg ! k) = cfrac ! k * snd (?cvg ! (k - 1)) + snd (?cvg ! (k - 2))"
    if "2 \<le> k \<and> k < length cfrac" for k
  proof -
    have "2 \<le> k" "k < length rest + 2"
      using that by (simp_all add: cfrac)
    from convergents_recurrence [OF this, of a0 1 "a0 * a1 + 1" a1 a0 a1]
    show ?thesis
      unfolding cfrac by simp
  qed
  show "\<exists>cvg. continous_frac_convergent cfrac = Inr cvg
      \<and> length cvg = length cfrac
      \<and> (\<forall>c\<in>set cvg. gcd (fst c) (snd c) = 1 \<and> 0 < snd c)
      \<and> cvg ! 0 = (cfrac ! 0, 1)
      \<and> cvg ! 1 = (cfrac ! 0 * cfrac ! 1 + 1, cfrac ! 1)
      \<and> (\<forall>k. 2 \<le> k \<and> k < length cfrac \<longrightarrow>
            fst (cvg ! k) = cfrac ! k * fst (cvg ! (k - 1)) + fst (cvg ! (k - 2))
          \<and> snd (cvg ! k) = cfrac ! k * snd (cvg ! (k - 1)) + snd (cvg ! (k - 2)))"
  proof (intro exI [of _ ?cvg] conjI)
    show "continous_frac_convergent cfrac = Inr ?cvg" by (rule eq)
    show "length ?cvg = length cfrac" by (rule len)
    show "\<forall>c\<in>set ?cvg. gcd (fst c) (snd c) = 1 \<and> 0 < snd c" using low by blast
    show "?cvg ! 0 = (cfrac ! 0, 1)" by (simp add: cfrac)
    show "?cvg ! 1 = (cfrac ! 0 * cfrac ! 1 + 1, cfrac ! 1)" by (simp add: cfrac)
    show "\<forall>k. 2 \<le> k \<and> k < length cfrac \<longrightarrow>
            fst (?cvg ! k) = cfrac ! k * fst (?cvg ! (k - 1)) + fst (?cvg ! (k - 2))
          \<and> snd (?cvg ! k) = cfrac ! k * snd (?cvg ! (k - 1)) + snd (?cvg ! (k - 2))"
      using rec by blast
  qed
qed

theorem continous_frac_convergent_recurrence_witness:
  "continous_frac_convergent [1, 2, 2, 2] = Inr [(1, 1), (3, 2), (7, 5), (17, 12)]
   \<and> continous_frac_convergent [5] = Inl ValueError"
proof -
  have "\<forall>a\<in>set (tl [1, 2, 2, 2 :: int]). 1 \<le> a"
    by simp
  from continous_frac_convergent_recurrence [OF this]
  obtain cvg where "continous_frac_convergent [1, 2, 2, 2] = Inr cvg"
    and "length cvg = length [1, 2, 2, 2 :: int]"
    by auto
  moreover have "continous_frac_convergent [1, 2, 2, 2] = Inr [(1, 1), (3, 2), (7, 5), (17, 12)]"
    by code_simp
  moreover have "continous_frac_convergent [5] = Inl ValueError"
    using continous_frac_convergent_recurrence [of "[5]"] by simp
  ultimately show ?thesis
    by simp
qed

text \<open>
  Without the positivity of the later terms the statement fails: on \<^verbatim>\<open>[1, 0]\<close>,
  which has two terms, \<^verbatim>\<open>Fraction(1, 0)\<close> raises \<^verbatim>\<open>ZeroDivisionError\<close>; and on
  \<^verbatim>\<open>[1, -2, 3]\<close> the stored fractions are \<open>1/1, 1/2, 2/5\<close>, whose numerators do not
  satisfy the recurrence (\<open>3 * 1 + 1 = 4\<close>).
\<close>

theorem continous_frac_convergent_zero_term:
  "2 \<le> length [1, 0 :: int]
   \<and> continous_frac_convergent [1, 0] = Inl ZeroDivisionError
   \<and> continous_frac_convergent [1, - 2, 3] = Inr [(1, 1), (1, 2), (2, 5)]"
  by code_simp

section \<open>\<^verbatim>\<open>sum_floor\<close>: summation of quotients by the hyperbola method\<close>

lemma isqrt_search_bounds:
  "isqrt_search n k \<le> k \<and> isqrt_search n k * isqrt_search n k \<le> n
   \<and> (\<forall>j. isqrt_search n k < j \<and> j \<le> k \<longrightarrow> n < j * j)"
proof (induction k)
  case 0
  show ?case by auto
next
  case (Suc k)
  show ?case
  proof (cases "Suc k * Suc k \<le> n")
    case True
    then show ?thesis by simp
  next
    case False
    then have eq: "isqrt_search n (Suc k) = isqrt_search n k"
      by simp
    have "n < j * j" if "isqrt_search n k < j \<and> j \<le> Suc k" for j
    proof (cases "j = Suc k")
      case True
      then show ?thesis using False by simp
    next
      case False
      then show ?thesis using that Suc.IH by simp
    qed
    then show ?thesis
      using Suc.IH unfolding eq by auto
  qed
qed

lemma isqrt_search_upper: "n < Suc (isqrt_search n n) * Suc (isqrt_search n n)"
proof (cases "isqrt_search n n < n")
  case True
  then have "isqrt_search n n < Suc (isqrt_search n n) \<and> Suc (isqrt_search n n) \<le> n"
    by simp
  moreover have "\<forall>j. isqrt_search n n < j \<and> j \<le> n \<longrightarrow> n < j * j"
    using isqrt_search_bounds [of n n] by blast
  ultimately show ?thesis
    by blast
next
  case False
  then have "isqrt_search n n = n"
    using isqrt_search_bounds [of n n] by simp
  then show ?thesis
    by simp
qed

lemma gmpy2_isqrt_exact:
  assumes "0 \<le> n"
  shows "\<exists>r. gmpy2_isqrt n = Inr r \<and> 0 \<le> r \<and> r * r \<le> n \<and> n < (r + 1) * (r + 1)"
proof -
  let ?r = "isqrt_search (nat n) (nat n)"
  have "?r * ?r \<le> nat n"
    using isqrt_search_bounds [of "nat n" "nat n"] by simp
  then have "int (?r * ?r) \<le> n"
    using assms by linarith
  then have lower: "int ?r * int ?r \<le> n"
    by simp
  have "nat n < Suc ?r * Suc ?r"
    by (rule isqrt_search_upper)
  then have "n < int (Suc ?r * Suc ?r)"
    using assms by linarith
  then have upper: "n < (int ?r + 1) * (int ?r + 1)"
    by (simp add: algebra_simps)
  show ?thesis
    using assms lower upper by (intro exI [of _ "int ?r"]) (simp add: gmpy2_isqrt_def)
qed

lemma le_div_iff_int:
  fixes m n k :: int
  assumes "0 < k"
  shows "m \<le> n div k \<longleftrightarrow> m * k \<le> n"
proof
  assume "m \<le> n div k"
  then have "m * k \<le> (n div k) * k"
    using assms by (simp add: mult_right_mono)
  also have "\<dots> \<le> n"
  proof -
    have "n div k * k + n mod k = n"
      by simp
    moreover have "0 \<le> n mod k"
      using assms by simp
    ultimately show ?thesis
      by linarith
  qed
  finally show "m * k \<le> n" .
next
  assume "m * k \<le> n"
  then have "(m * k) div k \<le> n div k"
    using assms by (rule zdiv_mono1)
  then show "m \<le> n div k"
    using assms by simp
qed

lemma div_eq_iff_between:
  fixes n x y :: int
  assumes "1 \<le> x" "1 \<le> y"
  shows "n div y = x \<longleftrightarrow> n div (x + 1) < y \<and> y \<le> n div x"
proof -
  have a: "x \<le> n div y \<longleftrightarrow> y \<le> n div x"
    using assms by (simp add: le_div_iff_int mult.commute)
  have b: "x + 1 \<le> n div y \<longleftrightarrow> y \<le> n div (x + 1)"
    using assms by (simp add: le_div_iff_int mult.commute)
  have "n div y = x \<longleftrightarrow> x \<le> n div y \<and> \<not> x + 1 \<le> n div y"
    by linarith
  then show ?thesis
    unfolding a b by linarith
qed

lemma fiber_interval:
  fixes n x lo hi :: int
  assumes "1 \<le> x" "1 \<le> lo"
  shows "{y \<in> {lo..hi}. n div y = x} = {max (n div (x + 1)) (lo - 1) <.. min (n div x) hi}"
proof -
  have "(y \<in> {lo..hi} \<and> n div y = x)
      \<longleftrightarrow> (max (n div (x + 1)) (lo - 1) < y \<and> y \<le> min (n div x) hi)" for y
  proof -
    have bounds: "(max (n div (x + 1)) (lo - 1) < y \<and> y \<le> min (n div x) hi)
        \<longleftrightarrow> (n div (x + 1) < y \<and> lo \<le> y \<and> y \<le> n div x \<and> y \<le> hi)"
      by (simp only: max_less_iff_conj min.bounded_iff) linarith
    show ?thesis
    proof (cases "1 \<le> y")
      case True
      have "n div y = x \<longleftrightarrow> n div (x + 1) < y \<and> y \<le> n div x"
        using assms(1) True by (rule div_eq_iff_between)
      then show ?thesis
        unfolding bounds by (simp only: atLeastAtMost_iff) blast
    next
      case False
      then have "\<not> lo \<le> y"
        using assms(2) by linarith
      then show ?thesis
        unfolding bounds by (simp only: atLeastAtMost_iff) blast
    qed
  qed
  then show ?thesis
    by (simp only: set_eq_iff mem_Collect_eq greaterThanAtMost_iff) blast
qed

lemma sum_from_first:
  fixes f :: "int \<Rightarrow> int"
  assumes "a \<le> b"
  shows "(\<Sum>x = a..b. f x) = f a + (\<Sum>x = a + 1..b. f x)"
proof -
  have "{a..b} = insert a {a + 1..b}"
    using assms by auto
  then show ?thesis
    by simp
qed

lemma if_less_min: "(if a < b then a else b) = min a (b::int)"
  by (simp add: min_def)

lemma if_ge_max: "(if a \<ge> b then a else b) = max a (b::int)"
  by (simp add: max_def)

lemma sum_floor_large_step:
  assumes "a + 1 \<noteq> 0"
  shows "sum_floor_large n xmin xmax (a # xs) a0 (n div a) res
         = sum_floor_large n xmin xmax xs (n div a) (n div (a + 1)) (res + large_term n xmin xmax a)"
proof -
  have "floordiv n (a + 1) = Inr (n div (a + 1))"
    using assms by (simp add: floordiv_def)
  then show ?thesis
    by (simp only: sum_floor_large.simps sum.case Let_def if_less_min if_ge_max large_term_def)
qed

lemma sum_floor_straddle_step:
  assumes "a + 1 \<noteq> 0"
  shows "sum_floor_straddle n xmin xmax (a # xs) a0 (n div a) res
         = sum_floor_straddle n xmin xmax xs (n div a) (n div (a + 1))
             (res + straddle_term n xmin xmax a)"
proof -
  have fd: "floordiv n (a + 1) = Inr (n div (a + 1))"
    using assms by (simp add: floordiv_def)
  have "(if n div (a + 1) < xmax
         then (if xmin \<le> a then res + n div a else res)
              + (min (n div a) xmax - n div (a + 1)) * a
         else (if xmin \<le> a then res + n div a else res))
      = res + straddle_term n xmin xmax a"
    by (simp add: straddle_term_def)
  then show ?thesis
    by (simp only: sum_floor_straddle.simps fd sum.case Let_def if_less_min)
qed

lemma sum_floor_small_eq:
  "0 < a \<Longrightarrow> sum_floor_small n [a..b] res = Inr (res + (\<Sum>x = a..b. n div x))"
proof (induction a b arbitrary: res rule: upto.induct)
  case (1 a b)
  show ?case
  proof (cases "a \<le> b")
    case True
    have "sum_floor_small n [a..b] res = sum_floor_small n [a + 1..b] (res + n div a)"
      using True "1.prems" by (simp add: upto_rec1 [of a b] floordiv_def)
    also have "\<dots> = Inr (res + n div a + (\<Sum>x = a + 1..b. n div x))"
      using True "1.prems" by (intro "1.IH") simp_all
    finally show ?thesis
      by (simp add: sum_from_first [OF True])
  next
    case False
    then show ?thesis by simp
  qed
qed

lemma sum_floor_large_eq:
  "0 < a \<Longrightarrow> sum_floor_large n xmin xmax [a..b] a0 (n div a) res
     = Inr (res + (\<Sum>x = a..b. large_term n xmin xmax x))"
proof (induction a b arbitrary: a0 res rule: upto.induct)
  case (1 a b)
  show ?case
  proof (cases "a \<le> b")
    case True
    have "a + 1 \<noteq> 0"
      using "1.prems" by simp
    then have "sum_floor_large n xmin xmax [a..b] a0 (n div a) res
        = sum_floor_large n xmin xmax [a + 1..b] (n div a) (n div (a + 1))
            (res + large_term n xmin xmax a)"
      unfolding upto_rec1 [OF True] by (rule sum_floor_large_step)
    also have "\<dots> = Inr (res + large_term n xmin xmax a + (\<Sum>x = a + 1..b. large_term n xmin xmax x))"
      using True "1.prems" by (intro "1.IH") simp_all
    finally show ?thesis
      by (simp add: sum_from_first [OF True])
  next
    case False
    then show ?thesis by simp
  qed
qed

lemma sum_floor_straddle_eq:
  "0 < a \<Longrightarrow> sum_floor_straddle n xmin xmax [a..b] a0 (n div a) res
     = Inr (res + (\<Sum>x = a..b. straddle_term n xmin xmax x))"
proof (induction a b arbitrary: a0 res rule: upto.induct)
  case (1 a b)
  show ?case
  proof (cases "a \<le> b")
    case True
    have "a + 1 \<noteq> 0"
      using "1.prems" by simp
    then have "sum_floor_straddle n xmin xmax [a..b] a0 (n div a) res
        = sum_floor_straddle n xmin xmax [a + 1..b] (n div a) (n div (a + 1))
            (res + straddle_term n xmin xmax a)"
      unfolding upto_rec1 [OF True] by (rule sum_floor_straddle_step)
    also have "\<dots> = Inr (res + straddle_term n xmin xmax a
        + (\<Sum>x = a + 1..b. straddle_term n xmin xmax x))"
      using True "1.prems" by (intro "1.IH") simp_all
    finally show ?thesis
      by (simp add: sum_from_first [OF True])
  next
    case False
    then show ?thesis by simp
  qed
qed

lemma sum_div_grouped:
  fixes n :: int
  assumes "finite S" "finite T" "(\<lambda>y. n div y) ` S \<subseteq> T"
  shows "(\<Sum>y\<in>S. n div y) = (\<Sum>x\<in>T. x * int (card {y \<in> S. n div y = x}))"
proof -
  have "(\<Sum>x\<in>T. x * int (card {y \<in> S. n div y = x}))
      = (\<Sum>x\<in>T. \<Sum>y\<in>{y \<in> S. n div y = x}. n div y)"
    by (intro sum.cong refl) simp
  also have "\<dots> = (\<Sum>y\<in>S. n div y)"
    using assms by (rule sum.group)
  finally show ?thesis
    by simp
qed

lemma div_antimono:
  fixes n a b :: int
  assumes "0 \<le> n" "0 < a" "a \<le> b"
  shows "n div b \<le> n div a"
  using assms by (rule zdiv_mono2)

lemma div_swap:
  fixes n x y :: int
  assumes "0 < x" "0 < y"
  shows "x \<le> n div y \<longleftrightarrow> y \<le> n div x"
  using assms by (simp add: le_div_iff_int mult.commute)

lemma large_term_card:
  fixes n x xmin xmax :: int
  assumes "0 \<le> n" "1 \<le> xmin" "xmin \<le> xmax" "n div xmax \<le> x" "x \<le> n div xmin" "1 \<le> x"
  shows "large_term n xmin xmax x = x * int (card {y \<in> {xmin..xmax}. n div y = x})"
proof -
  let ?lb = "max (n div (x + 1)) (xmin - 1)"
  let ?ub = "min (n div x) xmax"
  have a: "n div (x + 1) \<le> n div x"
    using assms(1,6) by (intro div_antimono) simp_all
  have "\<not> x + 1 \<le> n div xmax"
    using assms(4) by simp
  then have b: "n div (x + 1) < xmax"
    using div_swap [of "x + 1" xmax n] assms(2,3,6) by simp
  have c: "xmin \<le> n div x"
    using div_swap [of x xmin n] assms(2,5,6) by simp
  have le: "?lb \<le> ?ub"
    using a b c assms(3) by simp
  have "{y \<in> {xmin..xmax}. n div y = x} = {?lb <.. ?ub}"
    using assms(6,2) by (rule fiber_interval)
  then have "int (card {y \<in> {xmin..xmax}. n div y = x}) = ?ub - ?lb"
    using le by simp
  then show ?thesis
    by (simp add: large_term_def mult.commute)
qed

lemma sum_floor_large_case_eq:
  assumes "1 \<le> n" "1 \<le> xmin" "xmin \<le> xmax" "xmax \<le> n"
  shows "sum_floor_large_case n xmin xmax = Inr (\<Sum>y = xmin..xmax. n div y)"
proof -
  let ?L = "n div xmax" and ?U = "n div xmin"
  have L: "1 \<le> ?L"
    using assms by (simp add: le_div_iff_int)
  have fd: "floordiv n xmax = Inr ?L" "floordiv n xmin = Inr ?U" "floordiv n ?L = Inr (n div ?L)"
    using assms L by (simp_all add: floordiv_def)
  have "sum_floor_large_case n xmin xmax = sum_floor_large n xmin xmax [?L..?U] 0 (n div ?L) 0"
    by (simp add: sum_floor_large_case_def fd)
  also have "\<dots> = Inr (0 + (\<Sum>x = ?L..?U. large_term n xmin xmax x))"
    using L by (intro sum_floor_large_eq) simp
  also have "(\<Sum>x = ?L..?U. large_term n xmin xmax x)
      = (\<Sum>x = ?L..?U. x * int (card {y \<in> {xmin..xmax}. n div y = x}))"
  proof (rule sum.cong [OF refl])
    fix x
    assume "x \<in> {?L..?U}"
    then have "?L \<le> x" "x \<le> ?U" "1 \<le> x"
      using L by simp_all
    with assms show "large_term n xmin xmax x = x * int (card {y \<in> {xmin..xmax}. n div y = x})"
      by (intro large_term_card) simp_all
  qed
  also have "\<dots> = (\<Sum>y = xmin..xmax. n div y)"
  proof (rule sum_div_grouped [symmetric])
    show "(\<lambda>y. n div y) ` {xmin..xmax} \<subseteq> {?L..?U}"
    proof
      fix v
      assume "v \<in> (\<lambda>y. n div y) ` {xmin..xmax}"
      then obtain y where y: "xmin \<le> y" "y \<le> xmax" and v: "v = n div y"
        by auto
      have "?L \<le> n div y"
        using assms y by (intro div_antimono) simp_all
      moreover have "n div y \<le> ?U"
        using assms y by (intro div_antimono) simp_all
      ultimately show "v \<in> {?L..?U}"
        using v by simp
    qed
  qed simp_all
  finally show ?thesis
    by simp
qed

lemma inverse_term_card:
  fixes n x xmax :: int
  assumes "0 \<le> n" "1 \<le> x"
  shows "(if n div (x + 1) < xmax then (min (n div x) xmax - n div (x + 1)) * x else 0)
         = x * int (card {y \<in> {1..xmax}. n div y = x})"
proof -
  have a: "n div (x + 1) \<le> n div x"
    using assms by (intro div_antimono) simp_all
  have nonneg: "0 \<le> n div (x + 1)"
    using assms by (simp add: pos_imp_zdiv_nonneg_iff)
  have "{y \<in> {1..xmax}. n div y = x} = {max (n div (x + 1)) (1 - 1) <.. min (n div x) xmax}"
    using assms(2) by (rule fiber_interval) simp
  also have "max (n div (x + 1)) (1 - 1) = n div (x + 1)"
    using nonneg by simp
  finally have "card {y \<in> {1..xmax}. n div y = x} = nat (min (n div x) xmax - n div (x + 1))"
    by simp
  then have card: "int (card {y \<in> {1..xmax}. n div y = x})
      = int (nat (min (n div x) xmax - n div (x + 1)))"
    by (rule arg_cong)
  define k where "k = int (card {y \<in> {1..xmax}. n div y = x})"
  have k: "k = int (nat (min (n div x) xmax - n div (x + 1)))"
    unfolding k_def by (rule card)
  have "(if n div (x + 1) < xmax then (min (n div x) xmax - n div (x + 1)) * x else 0) = x * k"
  proof (cases "n div (x + 1) < xmax")
    case True
    then have "n div (x + 1) \<le> min (n div x) xmax"
      using a by simp
    then show ?thesis
      using True by (simp add: k mult.commute)
  next
    case False
    then have "min (n div x) xmax - n div (x + 1) \<le> 0"
      by simp
    then show ?thesis
      using False by (simp add: k)
  qed
  then show ?thesis
    unfolding k_def .
qed

lemma div_le_root_iff:
  fixes n r y :: int
  assumes "0 \<le> r" "r * r \<le> n" "n < (r + 1) * (r + 1)" "1 \<le> y"
  shows "n div y \<le> r \<longleftrightarrow> r < y \<or> (y = r \<and> n div r = r)"
proof -
  have iff: "n div y \<le> r \<longleftrightarrow> n < (r + 1) * y"
    using le_div_iff_int [of y "r + 1" n] assms(4) by linarith
  show ?thesis
  proof (cases "r < y")
    case True
    then have "(r + 1) * (r + 1) \<le> (r + 1) * y"
      using assms(1) by (intro mult_left_mono) simp_all
    then show ?thesis
      using True assms(3) iff by simp
  next
    case False
    show ?thesis
    proof (cases "y = r")
      case True
      have "r \<le> n div r"
        using le_div_iff_int [of r r n] assms(2,4) True by simp
      then show ?thesis
        using True by auto
    next
      case ne: False
      then have "y \<le> r - 1"
        using False by simp
      then have "(r + 1) * y \<le> (r + 1) * (r - 1)"
        using assms(1) by (intro mult_left_mono) simp_all
      also have "\<dots> = r * r - 1"
        by (simp add: algebra_simps)
      finally have "(r + 1) * y \<le> n"
        using assms(2) by simp
      then show ?thesis
        using False ne iff by simp
    qed
  qed
qed

lemma sum_adjacent:
  fixes f :: "int \<Rightarrow> int"
  assumes "a \<le> m + 1" "m \<le> b"
  shows "(\<Sum>x = a..m. f x) + (\<Sum>x = m + 1..b. f x) = (\<Sum>x = a..b. f x)"
proof -
  have "{a..b} = {a..m} \<union> {m + 1..b}"
    using assms by auto
  moreover have "{a..m} \<inter> {m + 1..b} = {}"
    by auto
  ultimately show ?thesis
    by (simp add: sum.union_disjoint)
qed

lemma sum_floor_straddle_case_eq:
  assumes "1 \<le> n" "0 \<le> r" "r * r \<le> n" "n < (r + 1) * (r + 1)"
    and "1 \<le> xmin" "xmin < r" "r < xmax" "xmax \<le> n"
  shows "sum_floor_straddle_case n r xmin xmax = Inr (\<Sum>y = xmin..xmax. n div y)"
proof -
  let ?L' = "n div xmax"
  define L where "L = (if ?L' > xmin then xmin else ?L')"
  let ?c = "if n div r = r then r else 0"
  let ?Y = "{y \<in> {1..xmax}. n div y \<le> r}"
  have Lq: "1 \<le> ?L'"
    using assms by (simp add: le_div_iff_int)
  have L: "1 \<le> L" "L \<le> xmin" "L \<le> ?L'" "L \<le> r"
    using Lq assms(5,6) by (simp_all add: L_def)
  have r: "1 \<le> r"
    using assms(5,6) by simp
  have fd: "floordiv n xmax = Inr ?L'" "floordiv n L = Inr (n div L)" "floordiv n r = Inr (n div r)"
    using assms(7) L(1) r by (simp_all add: floordiv_def)
  have loop: "sum_floor_straddle n xmin xmax [L..r] 0 (n div L) 0
      = Inr (0 + (\<Sum>x = L..r. straddle_term n xmin xmax x))"
    using L(1) by (intro sum_floor_straddle_eq) simp
  have "sum_floor_straddle_case n r xmin xmax
      = (case sum_floor_straddle n xmin xmax [L..r] 0 (n div L) 0 of
           Inl e \<Rightarrow> Inl e
         | Inr res \<Rightarrow>
             if L > r then Inl UnboundLocalError
             else (case floordiv n r of
                     Inl e \<Rightarrow> Inl e
                   | Inr y \<Rightarrow> Inr (if r = y then res - r else res)))"
    unfolding sum_floor_straddle_case_def fd(1) L_def by (simp only: sum.case Let_def fd(2) [unfolded L_def])
  also have "\<dots> = Inr ((\<Sum>x = L..r. straddle_term n xmin xmax x) - ?c)"
    unfolding loop fd(3) using L(4) by auto
  finally have code: "sum_floor_straddle_case n r xmin xmax
      = Inr ((\<Sum>x = L..r. straddle_term n xmin xmax x) - ?c)" .
  have direct: "(\<Sum>x = L..r. if xmin \<le> x then n div x else 0) = (\<Sum>x = xmin..r. n div x)"
  proof -
    have "(\<Sum>x = L..r. if xmin \<le> x then n div x else 0)
        = (\<Sum>x \<in> {x \<in> {L..r}. xmin \<le> x}. n div x)"
      by (rule sum.inter_filter [symmetric]) simp
    moreover have "{x \<in> {L..r}. xmin \<le> x} = {xmin..r}"
      using L(2) by auto
    ultimately show ?thesis
      by simp
  qed
  have inverse: "(\<Sum>x = L..r. if n div (x + 1) < xmax
          then (min (n div x) xmax - n div (x + 1)) * x else 0)
      = (\<Sum>y\<in>?Y. n div y)"
  proof -
    have "(\<Sum>x = L..r. if n div (x + 1) < xmax
            then (min (n div x) xmax - n div (x + 1)) * x else 0)
        = (\<Sum>x = L..r. x * int (card {y \<in> {1..xmax}. n div y = x}))"
    proof (rule sum.cong [OF refl])
      fix x
      assume "x \<in> {L..r}"
      then have "1 \<le> x"
        using L(1) by simp
      with assms(1) show "(if n div (x + 1) < xmax
            then (min (n div x) xmax - n div (x + 1)) * x else 0)
          = x * int (card {y \<in> {1..xmax}. n div y = x})"
        by (intro inverse_term_card) simp_all
    qed
    also have "\<dots> = (\<Sum>x = L..r. x * int (card {y \<in> ?Y. n div y = x}))"
    proof (rule sum.cong [OF refl])
      fix x
      assume "x \<in> {L..r}"
      then have "x \<le> r"
        by simp
      then have "{y \<in> {1..xmax}. n div y = x} = {y \<in> ?Y. n div y = x}"
        by auto
      then show "x * int (card {y \<in> {1..xmax}. n div y = x})
          = x * int (card {y \<in> ?Y. n div y = x})"
        by simp
    qed
    also have "\<dots> = (\<Sum>y\<in>?Y. n div y)"
    proof (rule sum_div_grouped [symmetric])
      show "(\<lambda>y. n div y) ` ?Y \<subseteq> {L..r}"
      proof
        fix v
        assume "v \<in> (\<lambda>y. n div y) ` ?Y"
        then obtain y where y: "1 \<le> y" "y \<le> xmax" "n div y \<le> r" and v: "v = n div y"
          by auto
        have "?L' \<le> n div y"
          using assms(1) y by (intro div_antimono) simp_all
        then show "v \<in> {L..r}"
          using v y(3) L(3) by simp
      qed
      have "finite {1..xmax}"
        by simp
      then show "finite ?Y"
        by (rule rev_finite_subset) blast
      show "finite {L..r}"
        by simp
    qed
    finally show ?thesis .
  qed
  have Y: "?Y = {r + 1..xmax} \<union> (if n div r = r then {r} else {})"
  proof -
    have "y \<in> ?Y \<longleftrightarrow> y \<in> {r + 1..xmax} \<union> (if n div r = r then {r} else {})" for y
    proof (cases "1 \<le> y")
      case True
      from div_le_root_iff [OF assms(2-4) True]
      show ?thesis
        using True assms(7) by auto
    next
      case False
      then show ?thesis
        using r by auto
    qed
    then show ?thesis
      by blast
  qed
  have sumY: "(\<Sum>y\<in>?Y. n div y) = (\<Sum>y = r + 1..xmax. n div y) + ?c"
  proof (cases "n div r = r")
    case True
    then have "?Y = insert r {r + 1..xmax}"
      using Y by simp
    moreover have "r \<notin> {r + 1..xmax}"
      by simp
    ultimately show ?thesis
      using True by simp
  next
    case False
    then show ?thesis
      using Y by simp
  qed
  have "(\<Sum>x = L..r. straddle_term n xmin xmax x)
      = (\<Sum>x = L..r. if xmin \<le> x then n div x else 0)
        + (\<Sum>x = L..r. if n div (x + 1) < xmax
              then (min (n div x) xmax - n div (x + 1)) * x else 0)"
    unfolding straddle_term_def by (rule sum.distrib)
  also have "\<dots> = (\<Sum>x = xmin..r. n div x) + ((\<Sum>y = r + 1..xmax. n div y) + ?c)"
    by (simp only: direct inverse sumY)
  also have "\<dots> = (\<Sum>y = xmin..xmax. n div y) + ?c"
    using sum_adjacent [of xmin r xmax "\<lambda>y. n div y"] assms(6,7) by simp
  finally show ?thesis
    unfolding code by simp
qed

lemma naive_tail_zero:
  fixes n :: int
  assumes "0 \<le> n" "n < a"
  shows "(\<Sum>x = a..b. n div x) = 0"
proof (rule sum.neutral)
  show "\<forall>x\<in>{a..b}. n div x = 0"
    using assms by (simp add: div_pos_pos_trivial)
qed

lemma naive_clamp:
  fixes n :: int
  assumes "0 \<le> n" "xmin \<le> n" "n < xmax"
  shows "(\<Sum>x = xmin..xmax. n div x) = (\<Sum>x = xmin..n. n div x)"
proof -
  have "(\<Sum>x = xmin..n. n div x) + (\<Sum>x = n + 1..xmax. n div x) = (\<Sum>x = xmin..xmax. n div x)"
    using assms by (intro sum_adjacent) simp_all
  moreover have "(\<Sum>x = n + 1..xmax. n div x) = 0"
    using assms(1) by (intro naive_tail_zero) simp_all
  ultimately show ?thesis
    by simp
qed

lemma sum_floor_clamped:
  assumes "1 \<le> n" "0 \<le> r" "r * r \<le> n" "n < (r + 1) * (r + 1)"
    and "1 \<le> xmin" "xmin \<le> xmax" "xmax \<le> n"
  shows "(if xmax \<le> r then sum_floor_small n [xmin..xmax] 0
          else if xmin \<ge> r then sum_floor_large_case n xmin xmax
          else sum_floor_straddle_case n r xmin xmax)
         = Inr (\<Sum>x = xmin..xmax. n div x)"
proof (cases "xmax \<le> r")
  case True
  have "sum_floor_small n [xmin..xmax] 0 = Inr (0 + (\<Sum>x = xmin..xmax. n div x))"
    using assms(5) by (intro sum_floor_small_eq) simp
  then show ?thesis
    using True by simp
next
  case False
  show ?thesis
  proof (cases "xmin \<ge> r")
    case True
    have "sum_floor_large_case n xmin xmax = Inr (\<Sum>x = xmin..xmax. n div x)"
      using assms(1,5,6,7) by (rule sum_floor_large_case_eq)
    then show ?thesis
      using False True by simp
  next
    case ge: False
    have "sum_floor_straddle_case n r xmin xmax = Inr (\<Sum>x = xmin..xmax. n div x)"
      using assms(1,2,3,4,5) _ _ assms(7) by (rule sum_floor_straddle_case_eq) (use False ge in simp_all)
    then show ?thesis
      using False ge by simp
  qed
qed

lemma root_nonneg:
  fixes n r :: int
  assumes "1 \<le> n" "r * r \<le> n" "n < (r + 1) * (r + 1)"
  shows "0 \<le> r"
proof (rule ccontr)
  assume "\<not> 0 \<le> r"
  then have "2 * r + 1 \<le> - 1"
    by simp
  moreover have "(r + 1) * (r + 1) = r * r + (2 * r + 1)"
    by (simp add: algebra_simps)
  ultimately have "(r + 1) * (r + 1) \<le> r * r - 1"
    by simp
  then show False
    using assms(2,3) by simp
qed

text \<open>
  C1 (as amended). For every positive integer \<open>n\<close> at which \<^verbatim>\<open>isqrt\<close> returns the
  integer square root (the \<open>r\<close> with \<open>r * r \<le> n < (r + 1) * (r + 1)\<close>) and all
  integers \<open>xmin\<close>, \<open>xmax\<close> with \<open>1 \<le> xmin \<le> xmax\<close>,
  \<^verbatim>\<open>sum_floor(n, xmin, xmax)\<close> returns exactly the naive sum of \<open>n div x\<close> for \<open>x\<close>
  from \<open>xmin\<close> to \<open>xmax\<close>, in all three regimes (\<open>sum_floor_small_eq\<close>,
  \<open>sum_floor_large_case_eq\<close>, \<open>sum_floor_straddle_case_eq\<close>) and also when \<open>xmax\<close>
  exceeds \<open>n\<close> and is clamped, the terms beyond \<open>n\<close> being 0.
\<close>

theorem sum_floor_eq_naive:
  assumes "1 \<le> n" "1 \<le> xmin" "xmin \<le> xmax"
    and "isqrt n = Inr r" "r * r \<le> n" "n < (r + 1) * (r + 1)"
  shows "sum_floor isqrt n xmin xmax = Inr (naive_sum_floor n xmin xmax)"
proof -
  have r: "0 \<le> r" "r * r \<le> n" "n < (r + 1) * (r + 1)"
    using assms(1,5,6) by (simp_all add: root_nonneg)
  show ?thesis
  proof (cases "xmin > n")
    case True
    have "(\<Sum>x = xmin..xmax. n div x) = 0"
      using assms(1) True by (intro naive_tail_zero) simp_all
    then show ?thesis
      using True by (simp add: sum_floor_def assms(4) naive_sum_floor_def)
  next
    case False
    define xmax' where "xmax' = (if xmax > n then n else xmax)"
    have clamp: "xmin \<le> xmax'" "xmax' \<le> n"
      using assms(3) False by (simp_all add: xmax'_def)
    have naive: "(\<Sum>x = xmin..xmax. n div x) = (\<Sum>x = xmin..xmax'. n div x)"
    proof (cases "xmax > n")
      case True
      then show ?thesis
        using assms(1) False by (simp add: xmax'_def naive_clamp)
    next
      case False
      then show ?thesis
        by (simp add: xmax'_def)
    qed
    have "sum_floor isqrt n xmin xmax
        = (if xmax' \<le> r then sum_floor_small n [xmin..xmax'] 0
           else if xmin \<ge> r then sum_floor_large_case n xmin xmax'
           else sum_floor_straddle_case n r xmin xmax')"
      using False unfolding sum_floor_def assms(4) xmax'_def
      by (simp only: sum.case Let_def if_False)
    also have "\<dots> = Inr (\<Sum>x = xmin..xmax'. n div x)"
      using assms(1) r assms(2) clamp by (rule sum_floor_clamped)
    finally show ?thesis
      by (simp only: naive naive_sum_floor_def)
  qed
qed

theorem sum_floor_eq_naive_witness:
  "sum_floor gmpy2_isqrt 10 2 7 = Inr 14
   \<and> sum_floor gmpy2_isqrt 10 1 3 = Inr 18
   \<and> sum_floor gmpy2_isqrt 10 4 25 = Inr 9"
proof -
  have root: "gmpy2_isqrt 10 = Inr 3"
    by code_simp
  have "sum_floor gmpy2_isqrt 10 2 7 = Inr (naive_sum_floor 10 2 7)"
    using root by (intro sum_floor_eq_naive [where r = 3]) simp_all
  moreover have "sum_floor gmpy2_isqrt 10 1 3 = Inr (naive_sum_floor 10 1 3)"
    using root by (intro sum_floor_eq_naive [where r = 3]) simp_all
  moreover have "sum_floor gmpy2_isqrt 10 4 25 = Inr (naive_sum_floor 10 4 25)"
    using root by (intro sum_floor_eq_naive [where r = 3]) simp_all
  moreover have "naive_sum_floor 10 2 7 = 14" "naive_sum_floor 10 1 3 = 18" "naive_sum_floor 10 4 25 = 9"
    by (simp_all add: naive_sum_floor_def simp_from_to)
  ultimately show ?thesis
    by simp
qed

text \<open>
  With \<open>xmin = 0\<close>, which the claim as stated allows, the function raises
  \<^verbatim>\<open>ZeroDivisionError\<close> in every regime that can be reached: the range of the
  direct summation, or the start of the third loop, contains the divisor 0.
  (At \<open>n = 4\<close> both bindings of \<^verbatim>\<open>isqrt\<close> return 2.)
\<close>

theorem sum_floor_xmin_zero:
  "(0::int) \<le> 0 \<and> (0::int) \<le> 1 \<and> sum_floor gmpy2_isqrt 4 0 1 = Inl ZeroDivisionError
   \<and> sum_floor gmpy2_isqrt 4 0 3 = Inl ZeroDivisionError"
  by code_simp

text \<open>
  With the binding to gmpy2 the condition on the root holds at every \<open>n \<ge> 0\<close>
  (\<open>gmpy2_isqrt_exact\<close>). It cannot be dropped: at \<open>n = 2\<^sup>6\<^sup>0 - 1\<close> the double
  nearest to \<open>n\<close> is \<open>2\<^sup>6\<^sup>0\<close>, so \<^verbatim>\<open>int(n**0.5)\<close> is \<open>2\<^sup>3\<^sup>0 = 1073741824\<close>,
  one more than the integer square root; with that root the function returns
  4294967294 on the range from \<open>2\<^sup>3\<^sup>0 - 1\<close> to \<open>2\<^sup>3\<^sup>0 + 1\<close>, where the naive sum
  is 3221225471.
\<close>

lemma sum_floor_straddle_root_off_by_one:
  "sum_floor_straddle_case 1152921504606846975 1073741824 1073741823 1073741825
   = Inr 4294967294"
  by code_simp

lemma sum_floor_root_off_by_one:
  assumes "isqrt 1152921504606846975 = Inr 1073741824"
  shows "sum_floor isqrt 1152921504606846975 1073741823 1073741825 = Inr 4294967294"
    and "naive_sum_floor 1152921504606846975 1073741823 1073741825 = 3221225471"
proof -
  show "sum_floor isqrt 1152921504606846975 1073741823 1073741825 = Inr 4294967294"
    by (simp add: sum_floor_def assms sum_floor_straddle_root_off_by_one)
  have "{1073741823..1073741825::int} = {1073741823, 1073741824, 1073741825}"
    by auto
  then show "naive_sum_floor 1152921504606846975 1073741823 1073741825 = 3221225471"
    by (simp add: naive_sum_floor_def)
qed

section \<open>\<^verbatim>\<open>irrational_continous_frac\<close>: the two failures\<close>




text \<open>
  The perfect-square test depends on the doubles. For \<open>d = (2\<^sup>5\<^sup>3 + 1)\<^sup>2\<close> the
  double \<^verbatim>\<open>sqrt(d)\<close> is \<open>2\<^sup>5\<^sup>3\<close>, the test does not recognise the square, and
  with the values the doubles give to the partial quotients the second round ends
  in \<^verbatim>\<open>ZeroDivisionError\<close>, \<open>q\<close> having become 0.
\<close>

lemma irrational_continous_frac_large_square:
  assumes "int_sqrt 81129638414606699710187514626049 = Inr 9007199254740992"
    and "partial_quotient 81129638414606699710187514626049 0 1 = Inr 9007199254740992"
    and "partial_quotient 81129638414606699710187514626049 9007199254740992 18014398509481985
         = Inr 1"
    and "partial_quotient 81129638414606699710187514626049 9007199254740993 0
         = Inl ZeroDivisionError"
    and "2 \<le> limit"
  shows "irrational_continous_frac int_sqrt partial_quotient
           81129638414606699710187514626049 0 1 limit = Inl ZeroDivisionError"
proof -
  let ?D = "81129638414606699710187514626049 :: int"
  let ?a = "9007199254740992 :: int"
  let ?p1 = "9007199254740992 :: rat"
  let ?q1 = "18014398509481985 :: rat"
  define k where "k = nat limit - 2"
  have k: "nat limit = Suc (Suc k)"
    using assms(5) by (simp add: k_def)
  have p1: "of_int ?a * 1 - 0 = ?p1"
    by simp
  have q1: "(of_int ?D - ?p1 * ?p1) / 1 = ?q1"
    by simp
  have p2: "of_int 1 * ?q1 - ?p1 = (9007199254740993 :: rat)"
    by simp
  have q2: "(of_int ?D - 9007199254740993 * 9007199254740993) / ?q1 = (0 :: rat)"
    by simp
  have nz: "(1::rat) \<noteq> 0" "?q1 \<noteq> 0"
    by simp_all
  have round2: "irrational_continous_frac_loop partial_quotient ?D (Suc k) ?p1 ?q1 1
      [?a, 1] [(?p1, ?q1)] = Inl ZeroDivisionError"
    by (simp only: irrational_continous_frac_loop.simps Let_def p2 q2 nz if_False assms(4) sum.case)
  have round1: "irrational_continous_frac_loop partial_quotient ?D (Suc (Suc k)) 0 1 ?a [?a] []
      = irrational_continous_frac_loop partial_quotient ?D (Suc k) ?p1 ?q1 1 [?a, 1] [(?p1, ?q1)]"
    by (simp only: irrational_continous_frac_loop.simps(2) [of partial_quotient ?D "Suc k" 0 1 ?a]
        Let_def p1 q1 nz if_False assms(3) sum.case list.set empty_iff append.simps)
  have test: "(?a * ?a = ?D) = False"
    by simp
  show ?thesis
    unfolding irrational_continous_frac_def assms(1) k
    by (simp only: sum.case test if_False of_int_0 of_int_1 assms(2) round1 round2)
qed

end
